theory Spec2Isabelle
  imports Main "HOL-Library.Word"
begin

section \<open>The incremental key/value scanner (stream\_json\_parse.c)\<close>

text \<open>
  The scanner state follows \<^verbatim>\<open>json_parse_state_t\<close> field by field. The receive buffer is
  represented by its valid bytes: \<open>parse_buffer\<close> holds the bytes at the indices
  \<open>0 ..< parse_buffer_len\<close>, so that \<open>parse_buffer_len\<close> is the length of that list (the
  terminating NUL the C code stores at index \<open>parse_buffer_len\<close> lies outside of it).
  The C type \<^verbatim>\<open>int\<close> is \<^typ>\<open>int\<close>; no counter of the scanner comes near its bounds.
  The state pointer is taken to be non-NULL.
\<close>

datatype parse_state_enum_t =
    PARSE_STATE_SEEKING_KEY
  | PARSE_STATE_IN_KEY
  | PARSE_STATE_SEEKING_COLON
  | PARSE_STATE_SEEKING_VALUE
  | PARSE_STATE_IN_VALUE

record json_parse_state_t =
  state :: parse_state_enum_t
  key_buffer :: string
  key_pos :: int
  bracket_depth :: int
  brace_depth :: int
  in_quotes :: bool
  escape_next :: bool
  value_start :: int
  value_len :: int
  parse_buffer :: string
  parse_buffer_capacity :: int

definition parse_buffer_len :: "json_parse_state_t \<Rightarrow> int" where
  "parse_buffer_len p = int (length (parse_buffer p))"

definition is_whitespace :: "char \<Rightarrow> bool" where
  "is_whitespace c \<longleftrightarrow> c = CHR 0x20 \<or> c = CHR 0x09 \<or> c = CHR 0x0A \<or> c = CHR 0x0D"

definition reset_value_tracking_for_parse_state :: "json_parse_state_t \<Rightarrow> json_parse_state_t" where
  "reset_value_tracking_for_parse_state p =
     p\<lparr>state := PARSE_STATE_SEEKING_KEY, key_pos := 0, bracket_depth := 0, brace_depth := 0,
       value_start := 0, value_len := 0, in_quotes := False, escape_next := False\<rparr>"

text \<open>
  \<^verbatim>\<open>shift_buffer_by_len\<close> moves the bytes from \<open>shift_len\<close> on to the front and shortens the
  buffer. Both callers pass a \<open>shift_len\<close> between 1 and \<open>parse_buffer_len\<close>.
\<close>

definition shift_buffer_by_len :: "json_parse_state_t \<Rightarrow> int \<Rightarrow> json_parse_state_t" where
  "shift_buffer_by_len p shift_len =
     reset_value_tracking_for_parse_state
       (p\<lparr>parse_buffer := drop (nat shift_len) (parse_buffer p)\<rparr>)"

definition reset_json_parse_state :: "json_parse_state_t \<Rightarrow> json_parse_state_t" where
  "reset_json_parse_state p =
     (reset_value_tracking_for_parse_state p)
       \<lparr>parse_buffer := [], key_buffer := replicate 64 (CHR 0x00)\<rparr>"

definition check_remaining_buffer :: "json_parse_state_t \<Rightarrow> int" where
  "check_remaining_buffer p = (if list_all is_whitespace (parse_buffer p) then 1 else 0)"

text \<open>
  One iteration of the \<^verbatim>\<open>for\<close> loop of \<^verbatim>\<open>find_key_value_pair\<close> at index \<open>i\<close> on the byte
  \<open>c\<close>: \<open>Inl (r, p')\<close> is \<^verbatim>\<open>return r\<close> with the state left as \<open>p'\<close>; \<open>Inr p'\<close> goes on to
  the next index (by \<^verbatim>\<open>continue\<close>, \<^verbatim>\<open>break\<close> out of the switch, or falling out of it).
  The comparison \<^verbatim>\<open>key_pos < sizeof(key_buffer) - 1\<close> is unsigned, hence the lower bound.
\<close>

definition scan_iter ::
  "json_parse_state_t \<Rightarrow> int \<Rightarrow> char \<Rightarrow> (int \<times> json_parse_state_t) + json_parse_state_t" where
  "scan_iter p i c =
     (if escape_next p then Inr (p\<lparr>escape_next := False\<rparr>)
      else if c = CHR 0x5C \<and> in_quotes p then Inr (p\<lparr>escape_next := True\<rparr>)
      else case state p of
        PARSE_STATE_SEEKING_KEY \<Rightarrow>
          if c = CHR 0x22 then Inr (p\<lparr>state := PARSE_STATE_IN_KEY\<rparr>)
          else if c = CHR 0x7D then
            (let p' = shift_buffer_by_len p (i + 1)
             in if check_remaining_buffer p' = 0 then Inl (- 1, p') else Inl (0, p'))
          else if \<not> is_whitespace c \<and> c \<noteq> CHR 0x7B then Inl (- 1, reset_json_parse_state p)
          else Inr p
      | PARSE_STATE_IN_KEY \<Rightarrow>
          if c = CHR 0x22 then
            Inr (p\<lparr>key_buffer := (key_buffer p)[nat (key_pos p) := CHR 0x00],
                   state := PARSE_STATE_SEEKING_COLON\<rparr>)
          else if 0 \<le> key_pos p \<and> key_pos p < 63 then
            Inr (p\<lparr>key_buffer := (key_buffer p)[nat (key_pos p) := c],
                   key_pos := key_pos p + 1\<rparr>)
          else Inr p
      | PARSE_STATE_SEEKING_COLON \<Rightarrow>
          if c = CHR 0x3A then Inr (p\<lparr>state := PARSE_STATE_SEEKING_VALUE\<rparr>)
          else if \<not> is_whitespace c then Inl (- 1, reset_json_parse_state p)
          else Inr p
      | PARSE_STATE_SEEKING_VALUE \<Rightarrow>
          if \<not> is_whitespace c then
            (let p1 = p\<lparr>state := PARSE_STATE_IN_VALUE, value_start := i\<rparr>
             in if c = CHR 0x22 then Inr (p1\<lparr>in_quotes := True\<rparr>)
                else if c = CHR 0x7B then Inr (p1\<lparr>brace_depth := 1\<rparr>)
                else if c = CHR 0x5B then Inr (p1\<lparr>bracket_depth := 1\<rparr>)
                else Inr p1)
          else Inr p
      | PARSE_STATE_IN_VALUE \<Rightarrow>
          (let p1 = (if c = CHR 0x22 \<and> \<not> escape_next p
                     then p\<lparr>in_quotes := \<not> in_quotes p\<rparr> else p)
           in if in_quotes p1 then Inr p1
              else if brace_depth p1 = 0 \<and> bracket_depth p1 = 0 \<and> (c = CHR 0x2C \<or> c = CHR 0x7D)
                then Inl (1, p1\<lparr>value_len := i - value_start p1\<rparr>)
              else if c = CHR 0x7B then Inr (p1\<lparr>brace_depth := brace_depth p1 + 1\<rparr>)
              else if c = CHR 0x7D then Inr (p1\<lparr>brace_depth := brace_depth p1 - 1\<rparr>)
              else if c = CHR 0x5B then Inr (p1\<lparr>bracket_depth := bracket_depth p1 + 1\<rparr>)
              else if c = CHR 0x5D then Inr (p1\<lparr>bracket_depth := bracket_depth p1 - 1\<rparr>)
              else Inr p1))"

text \<open>The loop over the remaining bytes \<open>cs\<close>, the first of them at index \<open>i\<close>.\<close>

fun scan_loop :: "json_parse_state_t \<Rightarrow> int \<Rightarrow> string \<Rightarrow> int \<times> json_parse_state_t" where
  "scan_loop p i [] = (0, p)"
| "scan_loop p i (c # cs) =
     (case scan_iter p i c of Inl r \<Rightarrow> r | Inr p' \<Rightarrow> scan_loop p' (i + 1) cs)"

text \<open>
  The entry test \<^verbatim>\<open>!p_state->state == PARSE_STATE_SEEKING_KEY\<close> parses as
  \<^verbatim>\<open>(!state) == 0\<close>, which holds exactly when \<open>state\<close> is not \<open>PARSE_STATE_SEEKING_KEY\<close>
  (the enumerator 0).
\<close>

definition find_key_value_pair :: "json_parse_state_t \<Rightarrow> int \<times> json_parse_state_t" where
  "find_key_value_pair p =
     (if state p \<noteq> PARSE_STATE_SEEKING_KEY then (- 1, p)
      else scan_loop p 0 (parse_buffer p))"

definition shift_parse_buffer_by_key_value :: "json_parse_state_t \<Rightarrow> json_parse_state_t" where
  "shift_parse_buffer_by_key_value p =
     (if parse_buffer_len p = 0 \<or> value_len p \<le> 0 then p
      else shift_buffer_by_len p (value_start p + value_len p + 1))"

text \<open>
  What a caller reads after a result of 1: the key as the NUL-terminated string in
  \<open>key_buffer\<close>, the value as the span \<open>value_start\<close>, \<open>value_len\<close> of the buffer.
\<close>

definition key_string :: "json_parse_state_t \<Rightarrow> string" where
  "key_string p = takeWhile (\<lambda>c. c \<noteq> CHR 0x00) (key_buffer p)"

definition value_span :: "json_parse_state_t \<Rightarrow> string" where
  "value_span p = take (nat (value_len p)) (drop (nat (value_start p)) (parse_buffer p))"

text \<open>A scanner state as \<^verbatim>\<open>reset_json_parse_state\<close> leaves it, holding the bytes \<open>bs\<close>.\<close>

definition fresh_parse_state :: "string \<Rightarrow> json_parse_state_t" where
  "fresh_parse_state bs =
     \<lparr>state = PARSE_STATE_SEEKING_KEY, key_buffer = replicate 64 (CHR 0x00), key_pos = 0,
      bracket_depth = 0, brace_depth = 0, in_quotes = False, escape_next = False,
      value_start = 0, value_len = 0, parse_buffer = bs, parse_buffer_capacity = 1024\<rparr>"

subsection \<open>A caller of the scanner\<close>

text \<open>
  Modelled from the spec: the caller of the scanner, which the repository does not contain.
  It appends received bytes to the buffer, scans, and after each result of 1 reads the pair
  and consumes it. \<open>scan_and_consume\<close> repeats scan and consume
  until a scan returns something else than 1; every consume removes at least one byte, so
  the buffer length plus one bounds the number of scans, and \<open>None\<close> says that this bound
  was reached.
\<close>

type_synonym kv = "string \<times> string"

fun scan_and_consume ::
  "nat \<Rightarrow> json_parse_state_t \<Rightarrow> kv list \<Rightarrow> (int \<times> json_parse_state_t \<times> kv list) option" where
  "scan_and_consume 0 p acc = None"
| "scan_and_consume (Suc n) p acc =
     (case find_key_value_pair p of
        (r, p') \<Rightarrow>
          if r = 1
          then scan_and_consume n (shift_parse_buffer_by_key_value p')
                 (acc @ [(key_string p', value_span p')])
          else Some (r, p', acc))"

definition append_bytes :: "json_parse_state_t \<Rightarrow> string \<Rightarrow> json_parse_state_t" where
  "append_bytes p bs = p\<lparr>parse_buffer := parse_buffer p @ bs\<rparr>"

text \<open>
  \<open>feed_chunks prep\<close> receives the chunks one after the other. After appending a chunk it
  applies \<open>prep\<close> to the state and scans; a result of \<open>-1\<close> ends the run. The triple holds the
  last result, the state and the pairs read so far.
\<close>

fun feed_chunks ::
  "(json_parse_state_t \<Rightarrow> json_parse_state_t) \<Rightarrow> int \<times> json_parse_state_t \<times> kv list \<Rightarrow>
   string list \<Rightarrow> (int \<times> json_parse_state_t \<times> kv list) option" where
  "feed_chunks prep res [] = Some res"
| "feed_chunks prep (r, p, acc) (bs # bss) =
     (let p1 = prep (append_bytes p bs)
      in case scan_and_consume (Suc (length (parse_buffer p1))) p1 acc of
           None \<Rightarrow> None
         | Some (r', p', acc') \<Rightarrow>
             if r' = - 1 then Some (r', p', acc') else feed_chunks prep (r', p', acc') bss)"

definition observed ::
  "(int \<times> json_parse_state_t \<times> kv list) option \<Rightarrow> (int \<times> string \<times> kv list) option" where
  "observed res = map_option (\<lambda>(r, p, acc). (r, parse_buffer p, acc)) res"

fun one_byte_chunks :: "string \<Rightarrow> string list" where
  "one_byte_chunks [] = []"
| "one_byte_chunks (c # cs) = [c] # one_byte_chunks cs"

definition segmentation_input :: string where
  \<open>segmentation_input = ''{"a":1,"b":"x,y","c":{"d":1},"e":[1,2]}''\<close>

definition segmentation_pairs :: "kv list" where
  \<open>segmentation_pairs =
     [(''a'', ''1''), (''b'', ''"x,y"''), (''c'', ''{"d":1}''), (''e'', ''[1,2]'')]\<close>

text \<open>
  After the first \<open>n\<close> bytes of \<open>segmentation_input\<close> have been received, \<open>consumed_at n\<close>
  of them have been consumed, \<open>pairs_at n\<close> pairs have been read, and the first byte of
  the key buffer is \<open>key_at n\<close>.
\<close>

definition consumed_at :: "nat \<Rightarrow> nat" where
  "consumed_at n =
     (if n < 7 then 0 else if n < 17 then 7 else if n < 29 then 17 else if n < 39 then 29 else 39)"

definition pairs_at :: "nat \<Rightarrow> nat" where
  "pairs_at n =
     (if n < 7 then 0 else if n < 17 then 1 else if n < 29 then 2 else if n < 39 then 3 else 4)"

definition key_at :: "nat \<Rightarrow> char" where
  "key_at n =
     (if n < 3 then CHR 0x00 else if n < 9 then CHR ''a'' else if n < 19 then CHR ''b''
      else if n < 31 then CHR ''c'' else CHR ''e'')"

definition rest_state :: "nat \<Rightarrow> char \<Rightarrow> nat \<Rightarrow> json_parse_state_t" where
  "rest_state c k n =
     (fresh_parse_state (drop c (take n segmentation_input)))
       \<lparr>key_buffer := k # replicate 63 (CHR 0x00)\<rparr>"

definition step_ok :: "nat \<times> char \<Rightarrow> nat \<Rightarrow> bool" where
  "step_ok ck n' =
     (case scan_and_consume (Suc (length (parse_buffer (rest_state (fst ck) (snd ck) n'))))
             (rest_state (fst ck) (snd ck) n') (take (pairs_at (fst ck)) segmentation_pairs) of
        None \<Rightarrow> False
      | Some (r, p, acc) \<Rightarrow>
          r = 0 \<and> acc = take (pairs_at n') segmentation_pairs \<and>
          reset_value_tracking_for_parse_state p = rest_state (consumed_at n') (key_at n') n')"

definition classes :: "(nat \<times> (nat \<times> char)) list" where
  "classes =
     [(0, (0, CHR 0x00)), (3, (0, CHR ''a'')), (7, (7, CHR ''a'')), (9, (7, CHR ''b'')),
      (17, (17, CHR ''b'')), (19, (17, CHR ''c'')), (29, (29, CHR ''c'')),
      (31, (29, CHR ''e'')), (39, (39, CHR ''e''))]"

text \<open>Inputs with a backslash, which a string literal cannot hold.\<close>

definition escaped_value_input :: string where
  \<open>escaped_value_input = ''{"k":"a'' @ [CHR 0x5C] @ ''"b",''\<close>

definition escaped_value_span :: string where
  \<open>escaped_value_span = ''"a'' @ [CHR 0x5C] @ ''"b"''\<close>

definition escaped_key_input :: string where
  \<open>escaped_key_input = ''{"a'' @ [CHR 0x5C] @ ''"b":1,''\<close>

definition in_string_value :: json_parse_state_t where
  "in_string_value = (fresh_parse_state escaped_value_input)
     \<lparr>state := PARSE_STATE_IN_VALUE, in_quotes := True, value_start := 5\<rparr>"

section \<open>The streaming writer (stream\_json.h, stream\_json\_write.c)\<close>

text \<open>
  The context follows \<^verbatim>\<open>sjson_context_t\<close>. \<open>buffer\<close> is the caller's memory region,
  \<open>buffer_size\<close> and \<open>used\<close> are \<^verbatim>\<open>size_t\<close> and \<open>depth\<close>, \<open>max_depth\<close> are \<^verbatim>\<open>uint8_t\<close>; they
  are natural numbers here, since every increment in the code is guarded (\<open>used\<close> grows by
  at most the free space, \<open>depth\<close> grows only below \<open>max_depth\<close> or from 0) and no decrement
  passes zero. The two arrays \<open>depth_stack\<close> and \<open>needs_comma\<close> are lists of
  \<open>SJSON_MAX_DEPTH + 1\<close> entries.

  The sink is outside the program. A callback is a function of the number of earlier
  invocations and of the bytes offered, which says whether it accepts them
  (\<^verbatim>\<open>user_data\<close> is part of that function). Two more fields record what has happened at the
  sink: \<open>sink_calls\<close> counts the invocations and \<open>sink_bytes\<close> lists the accepted chunks.
  The context pointer is taken to be non-NULL.
\<close>

datatype sjson_status_t =
    SJSON_OK
  | SJSON_ERROR_INVALID_STATE
  | SJSON_ERROR_MAX_DEPTH
  | SJSON_ERROR_BUFFER_FULL
  | SJSON_ERROR_INVALID_PARAM

type_synonym sjson_send_callback_t = "nat \<Rightarrow> string \<Rightarrow> bool"

definition SJSON_MAX_DEPTH :: nat where
  "SJSON_MAX_DEPTH = 8"

record sjson_context_t =
  buffer :: string
  buffer_size :: nat
  used :: nat
  send_callback :: sjson_send_callback_t
  depth_stack :: string
  depth :: nat
  max_depth :: nat
  needs_comma :: "bool list"
  finalized :: bool
  sink_calls :: nat
  sink_bytes :: "string list"

text \<open>
  An operation returns its status and the context it leaves. \<open>None\<close> stands for a call
  that does not return or whose behaviour C leaves undefined; it arises in the copy loop of
  \<^verbatim>\<open>write\<close> only.
\<close>

type_synonym sjson_result = "(sjson_status_t \<times> sjson_context_t) option"

text \<open>\<^verbatim>\<open>status = ...; if (status != SJSON_OK) return status;\<close> followed by the rest.\<close>

definition and_then :: "sjson_result \<Rightarrow> (sjson_context_t \<Rightarrow> sjson_result) \<Rightarrow> sjson_result" where
  "and_then r rest =
     (case r of
        None \<Rightarrow> None
      | Some (status, ctx) \<Rightarrow> if status \<noteq> SJSON_OK then Some (status, ctx) else rest ctx)"

definition sjson_Flush :: "sjson_context_t \<Rightarrow> sjson_status_t \<times> sjson_context_t" where
  "sjson_Flush ctx =
     (if used ctx = 0 then (SJSON_OK, ctx)
      else if \<not> send_callback ctx (sink_calls ctx) (take (used ctx) (buffer ctx))
        then (SJSON_ERROR_BUFFER_FULL, ctx\<lparr>sink_calls := Suc (sink_calls ctx)\<rparr>)
      else (SJSON_OK,
            ctx\<lparr>sink_calls := Suc (sink_calls ctx),
                sink_bytes := sink_bytes ctx @ [take (used ctx) (buffer ctx)],
                used := 0\<rparr>))"

text \<open>
  The \<^verbatim>\<open>while (len > 0)\<close> loop of \<^verbatim>\<open>write\<close>. With \<open>used = buffer_size\<close> at its head the C
  loop copies nothing and repeats for ever (this needs \<open>buffer_size = 0\<close>, as a full buffer
  has been flushed before); with \<open>used > buffer_size\<close> the unsigned \<open>available\<close> wraps
  around and \<^verbatim>\<open>memcpy\<close> writes past the buffer. Both are \<open>None\<close>.
\<close>

function write_loop :: "sjson_context_t \<Rightarrow> string \<Rightarrow> sjson_result" where
  "write_loop ctx data =
     (if data = [] then Some (SJSON_OK, ctx)
      else if buffer_size ctx \<le> used ctx then None
      else
        (let available = buffer_size ctx - used ctx;
             to_write = (if length data < available then length data else available);
             ctx1 = ctx\<lparr>buffer := take (used ctx) (buffer ctx) @ take to_write data @
                                    drop (used ctx + to_write) (buffer ctx),
                        used := used ctx + to_write\<rparr>
         in if used ctx1 = buffer_size ctx1
            then (case sjson_Flush ctx1 of
                    (status, ctx2) \<Rightarrow>
                      if status \<noteq> SJSON_OK then Some (status, ctx2)
                      else write_loop ctx2 (drop to_write data))
            else write_loop ctx1 (drop to_write data)))"
  by pat_completeness auto

termination
  by (relation "measure (\<lambda>(ctx, data). length data)") auto

text \<open>
  \<^verbatim>\<open>write\<close> (here \<open>write_data\<close>, as \<open>write\<close> is a keyword), \<^verbatim>\<open>write_str\<close> and
  \<^verbatim>\<open>write_char\<close>. The data pointer is never NULL: \<^verbatim>\<open>write_char\<close>
  passes the address of its argument, and every caller of \<^verbatim>\<open>write_str\<close> has tested its
  string or built it in a local array.
\<close>

definition write_data :: "sjson_context_t \<Rightarrow> string \<Rightarrow> sjson_result" where
  "write_data ctx data =
     (if buffer_size ctx = used ctx
      then (case sjson_Flush ctx of
              (status, ctx1) \<Rightarrow>
                if status \<noteq> SJSON_OK then Some (status, ctx1) else write_loop ctx1 data)
      else write_loop ctx data)"

definition write_str :: "sjson_context_t \<Rightarrow> string \<Rightarrow> sjson_result" where
  "write_str ctx str = write_data ctx str"

definition write_char :: "sjson_context_t \<Rightarrow> char \<Rightarrow> sjson_result" where
  "write_char ctx c = write_data ctx [c]"

definition add_comma_if_needed :: "sjson_context_t \<Rightarrow> sjson_result" where
  "add_comma_if_needed ctx =
     (if needs_comma ctx ! depth ctx
      then and_then (write_char ctx (CHR 0x2C))
             (\<lambda>ctx1. Some (SJSON_OK, ctx1\<lparr>needs_comma := (needs_comma ctx1)[depth ctx1 := True]\<rparr>))
      else Some (SJSON_OK, ctx\<lparr>needs_comma := (needs_comma ctx)[depth ctx := True]\<rparr>))"

definition check_object_state :: "sjson_context_t \<Rightarrow> sjson_status_t" where
  "check_object_state ctx =
     (if finalized ctx then SJSON_ERROR_INVALID_STATE
      else if depth ctx = 0 \<or> depth_stack ctx ! (depth ctx - 1) \<noteq> CHR 0x7D
        then SJSON_ERROR_INVALID_STATE
      else SJSON_OK)"

definition check_array_state :: "sjson_context_t \<Rightarrow> sjson_status_t" where
  "check_array_state ctx =
     (if finalized ctx then SJSON_ERROR_INVALID_STATE
      else if depth ctx = 0 \<or> depth_stack ctx ! (depth ctx - 1) \<noteq> CHR 0x5D
        then SJSON_ERROR_INVALID_STATE
      else SJSON_OK)"

subsection \<open>Formatting\<close>

text \<open>
  \<^verbatim>\<open>snprintf(buffer, size, ...)\<close> returns the length of the whole formatted text; the callers
  give up with \<open>SJSON_ERROR_BUFFER_FULL\<close> unless it is below that size, and else write the
  text. \<open>fmt_ld\<close> is the conversion \<^verbatim>\<open>%ld\<close>; \<^verbatim>\<open>long\<close> is taken to have 64 bits, so that
  the cast of an \<^verbatim>\<open>int64_t\<close> to it keeps the value. The conversion \<^verbatim>\<open>%.6f\<close> of a \<^verbatim>\<open>float\<close> and
  the cast from \<^verbatim>\<open>double\<close> to \<^verbatim>\<open>float\<close> are parameters \<open>fmt_f\<close> and \<open>to_float\<close> of the
  operations that use them, over types \<open>'f\<close> and \<open>'d\<close> of single and double precision
  numbers.
\<close>

definition digit_char :: "nat \<Rightarrow> char" where
  "digit_char n = ''0123456789'' ! n"

fun dec_digits :: "nat \<Rightarrow> string" where
  "dec_digits n = (if n < 10 then [digit_char n] else dec_digits (n div 10) @ [digit_char (n mod 10)])"

definition fmt_ld :: "int \<Rightarrow> string" where
  "fmt_ld i = (if i < 0 then CHR 0x2D # dec_digits (nat (- i)) else dec_digits (nat i))"

definition snprintf_fits :: "nat \<Rightarrow> string \<Rightarrow> bool" where
  "snprintf_fits cap s \<longleftrightarrow> length s < cap"

definition quoted_key :: "string \<Rightarrow> string" where
  "quoted_key key = [CHR 0x22] @ key @ [CHR 0x22, CHR 0x3A]"

text \<open>
  The two parameters as IEEE 754 arithmetic has them, a \<^verbatim>\<open>double\<close> being the bit pattern of
  a binary64 number and a \<^verbatim>\<open>float\<close> that of a binary32 number (sign, biased exponent,
  mantissa). \<open>double_to_float\<close> is the cast \<^verbatim>\<open>(float)value\<close>: the value is rounded to the
  nearest single precision number, a tie to the even mantissa; the result is subnormal or
  zero where the value is too small for a normal number, an infinity where it is too large
  (as IEC 60559 has it; the C standard alone leaves this case open), and the quiet NaN of
  the same sign for a NaN. \<open>fmt_6f\<close> is the conversion \<^verbatim>\<open>%.6f\<close> of a \<^verbatim>\<open>float\<close>, which the
  variadic call promotes to \<^verbatim>\<open>double\<close> without changing its value: the sign, then the
  exact value rounded to six decimals (a tie to the even digit, as a correctly rounding
  \<^verbatim>\<open>printf\<close> does), printed as the whole part, a point and six digits; an infinity is
  printed as \<open>inf\<close> and a NaN as \<open>nan\<close>. \<open>round_half_even n d\<close> is the quotient of \<open>n\<close> by
  \<open>d\<close> rounded to the nearest natural number, and \<open>bit_length n\<close> the number of binary
  digits of \<open>n\<close>.
\<close>

definition round_half_even :: "nat \<Rightarrow> nat \<Rightarrow> nat" where
  "round_half_even n d =
     (let q = n div d; r = n mod d
      in if 2 * r < d then q else if d < 2 * r then q + 1 else if even q then q else q + 1)"

fun bit_length :: "nat \<Rightarrow> nat" where
  "bit_length n = (if n = 0 then 0 else Suc (bit_length (n div 2)))"

definition double_to_float :: "64 word \<Rightarrow> 32 word" where
  "double_to_float v =
     (let n = unat v; s = n div 2 ^ 63; e = (n div 2 ^ 52) mod 2048; m = n mod 2 ^ 52;
          sign_bit = s * 2 ^ 31
      in if e = 2047
         then (if m = 0 then of_nat (sign_bit + 0x7F800000) else of_nat (sign_bit + 0x7FC00000))
         else
           (let M = (if e = 0 then m else 2 ^ 52 + m);
                E = (if e = 0 then - 1074 else int e - 1075)
            in if M = 0 then of_nat sign_bit
               else
                 (let ex = E + int (bit_length M) - 1;
                      q = max ex (- 126) - 23;
                      Mf = round_half_even M (2 ^ nat (q - E));
                      bits = nat (q + 149) * 2 ^ 23 + Mf
                  in of_nat (sign_bit + (if 0x7F800000 \<le> bits then 0x7F800000 else bits)))))"

definition six_digits :: "nat \<Rightarrow> string" where
  "six_digits n =
     [digit_char (n div 100000 mod 10), digit_char (n div 10000 mod 10),
      digit_char (n div 1000 mod 10), digit_char (n div 100 mod 10),
      digit_char (n div 10 mod 10), digit_char (n mod 10)]"

definition float_is_finite :: "32 word \<Rightarrow> bool" where
  "float_is_finite f \<longleftrightarrow> (unat f div 2 ^ 23) mod 256 \<noteq> 255"

definition float_sign_text :: "32 word \<Rightarrow> string" where
  "float_sign_text f = (if unat f div 2 ^ 31 = 1 then [CHR 0x2D] else [])"

definition fmt_6f :: "32 word \<Rightarrow> string" where
  "fmt_6f f =
     (let n = unat f; e = (n div 2 ^ 23) mod 256; m = n mod 2 ^ 23
      in if e = 255 then float_sign_text f @ (if m = 0 then ''inf'' else ''nan'')
         else
           (let M = (if e = 0 then m else 2 ^ 23 + m);
                N = (if 150 \<le> e then M * 10 ^ 6 * 2 ^ (e - 150)
                     else round_half_even (M * 10 ^ 6) (2 ^ (if e = 0 then 149 else 150 - e)))
            in float_sign_text f @ dec_digits (N div 10 ^ 6) @ [CHR 0x2E] @ six_digits (N mod 10 ^ 6)))"

subsection \<open>Initialization and finalization\<close>

text \<open>
  \<open>buffer\<close> and \<open>callback\<close> are pointers that may be NULL (\<open>None\<close>); \<open>closer\<close> is \<open>}\<close> for
  \<^verbatim>\<open>sjson_InitObject\<close> and \<open>]\<close> for \<^verbatim>\<open>sjson_InitArray\<close>, which differ in nothing else.
\<close>

definition sjson_Init ::
  "char \<Rightarrow> char \<Rightarrow> sjson_context_t \<Rightarrow> string option \<Rightarrow> nat \<Rightarrow> sjson_send_callback_t option \<Rightarrow>
   sjson_result" where
  "sjson_Init opener closer ctx buf sz callback =
     (case (buf, callback) of
        (Some b, Some cb) \<Rightarrow>
          if sz = 0 then Some (SJSON_ERROR_INVALID_PARAM, ctx)
          else
            (let ctx1 = ctx\<lparr>buffer := b, buffer_size := sz, used := 0, send_callback := cb,
                            depth := 0, max_depth := SJSON_MAX_DEPTH, finalized := False,
                            depth_stack := replicate (SJSON_MAX_DEPTH + 1) (CHR 0x00),
                            needs_comma := replicate (SJSON_MAX_DEPTH + 1) False\<rparr>
             in and_then (write_char ctx1 opener)
                  (\<lambda>ctx2.
                     (let ctx3 = ctx2\<lparr>depth_stack := (depth_stack ctx2)[depth ctx2 := closer]\<rparr>;
                          ctx4 = ctx3\<lparr>depth := depth ctx3 + 1\<rparr>
                      in Some (SJSON_OK,
                               ctx4\<lparr>needs_comma := (needs_comma ctx4)[depth ctx4 := False]\<rparr>))))
      | _ \<Rightarrow> Some (SJSON_ERROR_INVALID_PARAM, ctx))"

definition sjson_InitObject ::
  "sjson_context_t \<Rightarrow> string option \<Rightarrow> nat \<Rightarrow> sjson_send_callback_t option \<Rightarrow> sjson_result" where
  "sjson_InitObject = sjson_Init (CHR 0x7B) (CHR 0x7D)"

definition sjson_InitArray ::
  "sjson_context_t \<Rightarrow> string option \<Rightarrow> nat \<Rightarrow> sjson_send_callback_t option \<Rightarrow> sjson_result" where
  "sjson_InitArray = sjson_Init (CHR 0x5B) (CHR 0x5D)"

definition sjson_Close :: "sjson_context_t \<Rightarrow> sjson_result" where
  "sjson_Close ctx =
     (if finalized ctx \<or> depth ctx = 0 then Some (SJSON_ERROR_INVALID_STATE, ctx)
      else
        (let ctx1 = ctx\<lparr>depth := depth ctx - 1\<rparr>
         in case write_char ctx1 (depth_stack ctx1 ! depth ctx1) of
              None \<Rightarrow> None
            | Some (status, ctx2) \<Rightarrow>
                if status \<noteq> SJSON_OK then Some (status, ctx2\<lparr>depth := depth ctx2 + 1\<rparr>)
                else if depth ctx2 = 0 then Some (sjson_Flush (ctx2\<lparr>finalized := True\<rparr>))
                else Some (SJSON_OK,
                           ctx2\<lparr>needs_comma := (needs_comma ctx2)[depth ctx2 := True]\<rparr>)))"

text \<open>
  The loop \<^verbatim>\<open>while (ctx->depth > 0)\<close> of \<^verbatim>\<open>sjson_End\<close>. A successful \<^verbatim>\<open>sjson_Close\<close> lowers
  \<open>depth\<close> by one, so \<open>depth\<close> iterations are enough; \<open>None\<close> says that they were not.
\<close>

fun close_all :: "nat \<Rightarrow> sjson_context_t \<Rightarrow> sjson_result" where
  "close_all n ctx =
     (if depth ctx > 0
      then (case n of 0 \<Rightarrow> None | Suc m \<Rightarrow> and_then (sjson_Close ctx) (close_all m))
      else Some (SJSON_OK, ctx))"

definition sjson_End :: "sjson_context_t \<Rightarrow> sjson_result" where
  "sjson_End ctx =
     (if finalized ctx then Some (sjson_Flush ctx) else close_all (depth ctx) ctx)"

subsection \<open>Adding to an object\<close>

text \<open>Keys, string values and value arrays are pointers that may be NULL (\<open>None\<close>).\<close>

definition sjson_AddStringToObject ::
  "sjson_context_t \<Rightarrow> string option \<Rightarrow> string option \<Rightarrow> sjson_result" where
  "sjson_AddStringToObject ctx key val =
     (case (key, val) of
        (Some k, Some v) \<Rightarrow>
          if check_object_state ctx \<noteq> SJSON_OK then Some (check_object_state ctx, ctx)
          else and_then (add_comma_if_needed ctx)
                 (\<lambda>ctx1.
                    (let text = quoted_key k @ [CHR 0x22] @ v @ [CHR 0x22]
                     in if \<not> snprintf_fits 256 text then Some (SJSON_ERROR_BUFFER_FULL, ctx1)
                        else write_str ctx1 text))
      | _ \<Rightarrow> Some (SJSON_ERROR_INVALID_PARAM, ctx))"

definition sjson_AddIntToObject ::
  "sjson_context_t \<Rightarrow> string option \<Rightarrow> 64 word \<Rightarrow> sjson_result" where
  "sjson_AddIntToObject ctx key val =
     (case key of
        Some k \<Rightarrow>
          if check_object_state ctx \<noteq> SJSON_OK then Some (check_object_state ctx, ctx)
          else and_then (add_comma_if_needed ctx)
                 (\<lambda>ctx1.
                    (let text = quoted_key k @ fmt_ld (sint val)
                     in if \<not> snprintf_fits 128 text then Some (SJSON_ERROR_BUFFER_FULL, ctx1)
                        else write_str ctx1 text))
      | None \<Rightarrow> Some (SJSON_ERROR_INVALID_PARAM, ctx))"

definition sjson_AddFloatToObject ::
  "('f \<Rightarrow> string) \<Rightarrow> sjson_context_t \<Rightarrow> string option \<Rightarrow> 'f \<Rightarrow> sjson_result" where
  "sjson_AddFloatToObject fmt_f ctx key val =
     (case key of
        Some k \<Rightarrow>
          if check_object_state ctx \<noteq> SJSON_OK then Some (check_object_state ctx, ctx)
          else and_then (add_comma_if_needed ctx)
                 (\<lambda>ctx1.
                    (let text = quoted_key k @ fmt_f val
                     in if \<not> snprintf_fits 128 text then Some (SJSON_ERROR_BUFFER_FULL, ctx1)
                        else write_str ctx1 text))
      | None \<Rightarrow> Some (SJSON_ERROR_INVALID_PARAM, ctx))"

definition sjson_AddNumberToObject ::
  "('d \<Rightarrow> 'f) \<Rightarrow> ('f \<Rightarrow> string) \<Rightarrow> sjson_context_t \<Rightarrow> string option \<Rightarrow> 'd \<Rightarrow> sjson_result" where
  "sjson_AddNumberToObject to_float fmt_f ctx key val =
     sjson_AddFloatToObject fmt_f ctx key (to_float val)"

text \<open>
  The element loop of the two array conveniences: \<open>i\<close> is the index of the first of the
  remaining values, \<open>fmt\<close> the conversion of one value.
\<close>

fun write_elements ::
  "('a \<Rightarrow> string) \<Rightarrow> sjson_context_t \<Rightarrow> nat \<Rightarrow> 'a list \<Rightarrow> sjson_result" where
  "write_elements fmt ctx i [] = Some (SJSON_OK, ctx)"
| "write_elements fmt ctx i (v # vs) =
     (let text = (if i > 0 then [CHR 0x2C] else []) @ fmt v
      in if \<not> snprintf_fits 32 text then Some (SJSON_ERROR_BUFFER_FULL, ctx)
         else and_then (write_str ctx text) (\<lambda>ctx1. write_elements fmt ctx1 (i + 1) vs))"

definition add_array_to_object ::
  "('a \<Rightarrow> string) \<Rightarrow> sjson_context_t \<Rightarrow> string option \<Rightarrow> 'a list option \<Rightarrow> sjson_result" where
  "add_array_to_object fmt ctx key vals =
     (case (key, vals) of
        (Some k, Some vs) \<Rightarrow>
          if check_object_state ctx \<noteq> SJSON_OK then Some (check_object_state ctx, ctx)
          else and_then (add_comma_if_needed ctx)
                 (\<lambda>ctx1.
                    (let text = quoted_key k @ [CHR 0x5B]
                     in if \<not> snprintf_fits 64 text then Some (SJSON_ERROR_BUFFER_FULL, ctx1)
                        else and_then (write_str ctx1 text)
                               (\<lambda>ctx2. and_then (write_elements fmt ctx2 0 vs)
                                  (\<lambda>ctx3. write_char ctx3 (CHR 0x5D)))))
      | _ \<Rightarrow> Some (SJSON_ERROR_INVALID_PARAM, ctx))"

definition sjson_AddIntArrayToObject ::
  "sjson_context_t \<Rightarrow> string option \<Rightarrow> 64 word list option \<Rightarrow> sjson_result" where
  "sjson_AddIntArrayToObject = add_array_to_object (\<lambda>v. fmt_ld (sint v))"

definition sjson_AddFloatArrayToObject ::
  "('f \<Rightarrow> string) \<Rightarrow> sjson_context_t \<Rightarrow> string option \<Rightarrow> 'f list option \<Rightarrow> sjson_result" where
  "sjson_AddFloatArrayToObject fmt_f = add_array_to_object fmt_f"

definition push_closer :: "sjson_context_t \<Rightarrow> char \<Rightarrow> sjson_context_t" where
  "push_closer ctx closer =
     (let ctx1 = ctx\<lparr>depth_stack := (depth_stack ctx)[depth ctx := closer]\<rparr>;
          ctx2 = ctx1\<lparr>depth := depth ctx1 + 1\<rparr>
      in ctx2\<lparr>needs_comma := (needs_comma ctx2)[depth ctx2 := False]\<rparr>)"

definition sjson_AddArrayToObject :: "sjson_context_t \<Rightarrow> string option \<Rightarrow> sjson_result" where
  "sjson_AddArrayToObject ctx key =
     (case key of
        Some k \<Rightarrow>
          if length k = 0 \<or> length k > 128 then Some (SJSON_ERROR_INVALID_PARAM, ctx)
          else if check_object_state ctx \<noteq> SJSON_OK then Some (check_object_state ctx, ctx)
          else if depth ctx \<ge> max_depth ctx then Some (SJSON_ERROR_MAX_DEPTH, ctx)
          else and_then (add_comma_if_needed ctx)
                 (\<lambda>ctx1.
                    (let text = quoted_key k @ [CHR 0x5B]
                     in if \<not> snprintf_fits (128 + 5) text then Some (SJSON_ERROR_BUFFER_FULL, ctx1)
                        else and_then (write_str ctx1 text)
                               (\<lambda>ctx2. Some (SJSON_OK, push_closer ctx2 (CHR 0x5D)))))
      | None \<Rightarrow> Some (SJSON_ERROR_INVALID_PARAM, ctx))"

definition sjson_AddObjectToObject :: "sjson_context_t \<Rightarrow> string option \<Rightarrow> sjson_result" where
  "sjson_AddObjectToObject ctx key =
     (case key of
        Some k \<Rightarrow>
          if check_object_state ctx \<noteq> SJSON_OK then Some (check_object_state ctx, ctx)
          else if depth ctx \<ge> max_depth ctx then Some (SJSON_ERROR_MAX_DEPTH, ctx)
          else and_then (add_comma_if_needed ctx)
                 (\<lambda>ctx1.
                    (let text = quoted_key k @ [CHR 0x7B]
                     in if \<not> snprintf_fits 128 text then Some (SJSON_ERROR_BUFFER_FULL, ctx1)
                        else and_then (write_str ctx1 text)
                               (\<lambda>ctx2. Some (SJSON_OK, push_closer ctx2 (CHR 0x7D)))))
      | None \<Rightarrow> Some (SJSON_ERROR_INVALID_PARAM, ctx))"

definition sjson_AddRawToObject ::
  "sjson_context_t \<Rightarrow> string option \<Rightarrow> string option \<Rightarrow> sjson_result" where
  "sjson_AddRawToObject ctx key val =
     (case (key, val) of
        (Some k, Some v) \<Rightarrow>
          if check_object_state ctx \<noteq> SJSON_OK then Some (check_object_state ctx, ctx)
          else and_then (add_comma_if_needed ctx)
                 (\<lambda>ctx1. and_then (write_char ctx1 (CHR 0x22))
                    (\<lambda>ctx2. and_then (write_str ctx2 k)
                       (\<lambda>ctx3. and_then (write_str ctx3 [CHR 0x22, CHR 0x3A])
                          (\<lambda>ctx4. write_str ctx4 v))))
      | _ \<Rightarrow> Some (SJSON_ERROR_INVALID_PARAM, ctx))"

subsection \<open>Adding to an array\<close>

definition sjson_AddIntToArray :: "sjson_context_t \<Rightarrow> 64 word \<Rightarrow> sjson_result" where
  "sjson_AddIntToArray ctx val =
     (if check_array_state ctx \<noteq> SJSON_OK then Some (check_array_state ctx, ctx)
      else and_then (add_comma_if_needed ctx)
             (\<lambda>ctx1.
                (let text = fmt_ld (sint val)
                 in if \<not> snprintf_fits 32 text then Some (SJSON_ERROR_BUFFER_FULL, ctx1)
                    else write_str ctx1 text)))"

definition sjson_AddFloatToArray ::
  "('f \<Rightarrow> string) \<Rightarrow> sjson_context_t \<Rightarrow> 'f \<Rightarrow> sjson_result" where
  "sjson_AddFloatToArray fmt_f ctx val =
     (if check_array_state ctx \<noteq> SJSON_OK then Some (check_array_state ctx, ctx)
      else and_then (add_comma_if_needed ctx)
             (\<lambda>ctx1.
                (let text = fmt_f val
                 in if \<not> snprintf_fits 32 text then Some (SJSON_ERROR_BUFFER_FULL, ctx1)
                    else write_str ctx1 text)))"

definition sjson_AddStringToArray :: "sjson_context_t \<Rightarrow> string option \<Rightarrow> sjson_result" where
  "sjson_AddStringToArray ctx val =
     (case val of
        Some v \<Rightarrow>
          if check_array_state ctx \<noteq> SJSON_OK then Some (check_array_state ctx, ctx)
          else and_then (add_comma_if_needed ctx)
                 (\<lambda>ctx1. and_then (write_char ctx1 (CHR 0x22))
                    (\<lambda>ctx2. and_then (write_str ctx2 v)
                       (\<lambda>ctx3. write_char ctx3 (CHR 0x22))))
      | None \<Rightarrow> Some (SJSON_ERROR_INVALID_PARAM, ctx))"

subsection \<open>Sequences of operations\<close>

text \<open>
  The operations a caller can apply to an initialized context, and the run of a sequence
  of them: every operation is applied, whatever the earlier ones returned, and the statuses
  are collected in order.
\<close>

datatype ('f, 'd) sjson_op =
    Op_Close
  | Op_End
  | Op_Flush
  | Op_AddStringToObject "string option" "string option"
  | Op_AddIntToObject "string option" "64 word"
  | Op_AddFloatToObject "string option" 'f
  | Op_AddNumberToObject "string option" 'd
  | Op_AddIntArrayToObject "string option" "64 word list option"
  | Op_AddFloatArrayToObject "string option" "'f list option"
  | Op_AddArrayToObject "string option"
  | Op_AddObjectToObject "string option"
  | Op_AddRawToObject "string option" "string option"
  | Op_AddIntToArray "64 word"
  | Op_AddFloatToArray 'f
  | Op_AddStringToArray "string option"

fun apply_op ::
  "('d \<Rightarrow> 'f) \<Rightarrow> ('f \<Rightarrow> string) \<Rightarrow> ('f, 'd) sjson_op \<Rightarrow> sjson_context_t \<Rightarrow> sjson_result" where
  "apply_op to_float fmt_f Op_Close ctx = sjson_Close ctx"
| "apply_op to_float fmt_f Op_End ctx = sjson_End ctx"
| "apply_op to_float fmt_f Op_Flush ctx = Some (sjson_Flush ctx)"
| "apply_op to_float fmt_f (Op_AddStringToObject k v) ctx = sjson_AddStringToObject ctx k v"
| "apply_op to_float fmt_f (Op_AddIntToObject k v) ctx = sjson_AddIntToObject ctx k v"
| "apply_op to_float fmt_f (Op_AddFloatToObject k v) ctx = sjson_AddFloatToObject fmt_f ctx k v"
| "apply_op to_float fmt_f (Op_AddNumberToObject k v) ctx =
     sjson_AddNumberToObject to_float fmt_f ctx k v"
| "apply_op to_float fmt_f (Op_AddIntArrayToObject k vs) ctx = sjson_AddIntArrayToObject ctx k vs"
| "apply_op to_float fmt_f (Op_AddFloatArrayToObject k vs) ctx =
     sjson_AddFloatArrayToObject fmt_f ctx k vs"
| "apply_op to_float fmt_f (Op_AddArrayToObject k) ctx = sjson_AddArrayToObject ctx k"
| "apply_op to_float fmt_f (Op_AddObjectToObject k) ctx = sjson_AddObjectToObject ctx k"
| "apply_op to_float fmt_f (Op_AddRawToObject k v) ctx = sjson_AddRawToObject ctx k v"
| "apply_op to_float fmt_f (Op_AddIntToArray v) ctx = sjson_AddIntToArray ctx v"
| "apply_op to_float fmt_f (Op_AddFloatToArray v) ctx = sjson_AddFloatToArray fmt_f ctx v"
| "apply_op to_float fmt_f (Op_AddStringToArray v) ctx = sjson_AddStringToArray ctx v"

fun run_ops ::
  "('d \<Rightarrow> 'f) \<Rightarrow> ('f \<Rightarrow> string) \<Rightarrow> sjson_context_t \<Rightarrow> ('f, 'd) sjson_op list \<Rightarrow>
   (sjson_status_t list \<times> sjson_context_t) option" where
  "run_ops to_float fmt_f ctx [] = Some ([], ctx)"
| "run_ops to_float fmt_f ctx (x # xs) =
     (case apply_op to_float fmt_f x ctx of
        None \<Rightarrow> None
      | Some (status, ctx1) \<Rightarrow>
          (case run_ops to_float fmt_f ctx1 xs of
             None \<Rightarrow> None
           | Some (statuses, ctx2) \<Rightarrow> Some (status # statuses, ctx2)))"

text \<open>
  A session: \<^verbatim>\<open>sjson_InitObject\<close> (\<open>as_object\<close>) or \<^verbatim>\<open>sjson_InitArray\<close> on a buffer of \<open>sz\<close>
  bytes, then the operations \<open>ops\<close>. The first status is that of the initialization.
\<close>

definition session ::
  "('d \<Rightarrow> 'f) \<Rightarrow> ('f \<Rightarrow> string) \<Rightarrow> bool \<Rightarrow> sjson_context_t \<Rightarrow> string \<Rightarrow> nat \<Rightarrow>
   sjson_send_callback_t \<Rightarrow> ('f, 'd) sjson_op list \<Rightarrow>
   (sjson_status_t list \<times> sjson_context_t) option" where
  "session to_float fmt_f as_object ctx buf sz callback ops =
     (case (if as_object then sjson_InitObject ctx (Some buf) sz (Some callback)
            else sjson_InitArray ctx (Some buf) sz (Some callback)) of
        None \<Rightarrow> None
      | Some (status, ctx1) \<Rightarrow>
          (case run_ops to_float fmt_f ctx1 ops of
             None \<Rightarrow> None
           | Some (statuses, ctx2) \<Rightarrow> Some (status # statuses, ctx2)))"

text \<open>A context before its first initialization, at a sink that has received nothing.\<close>

definition blank_context :: sjson_context_t where
  "blank_context =
     \<lparr>buffer = [], buffer_size = 0, used = 0, send_callback = (\<lambda>n bytes. False),
      depth_stack = [], depth = 0, max_depth = 0, needs_comma = [], finalized = False,
      sink_calls = 0, sink_bytes = []\<rparr>"

definition always_accept :: sjson_send_callback_t where
  "always_accept n bytes = True"

text \<open>All bytes of the document so far: those the sink has accepted, then those buffered.\<close>

definition emitted :: "sjson_context_t \<Rightarrow> string" where
  "emitted ctx = concat (sink_bytes ctx) @ take (used ctx) (buffer ctx)"

declare write_loop.simps [simp del]

subsection \<open>Notions for the properties of the writer\<close>

text \<open>
  \<open>control\<close> is the part of a context that decides what an operation does next to the
  document; \<open>accepting\<close> says that the sink accepts whatever it is offered; a context is
  \<open>well_formed\<close> when its buffer is non-empty, really has \<open>buffer_size\<close> bytes and holds at
  most that many, which \<^verbatim>\<open>sjson_InitObject\<close> and \<^verbatim>\<open>sjson_InitArray\<close> establish.
  \<open>copy_in\<close> is the \<^verbatim>\<open>memcpy\<close> step of the copy loop.
\<close>

definition control :: "sjson_context_t \<Rightarrow> nat \<times> string \<times> bool list \<times> bool \<times> nat" where
  "control ctx = (depth ctx, depth_stack ctx, needs_comma ctx, finalized ctx, max_depth ctx)"

definition accepting :: "sjson_context_t \<Rightarrow> bool" where
  "accepting ctx \<longleftrightarrow> (\<forall>n bytes. send_callback ctx n bytes)"

definition well_formed :: "sjson_context_t \<Rightarrow> bool" where
  "well_formed ctx \<longleftrightarrow>
     0 < buffer_size ctx \<and> used ctx \<le> buffer_size ctx \<and> buffer_size ctx \<le> length (buffer ctx)"

definition copy_in :: "sjson_context_t \<Rightarrow> nat \<Rightarrow> string \<Rightarrow> sjson_context_t" where
  "copy_in ctx tw data =
     ctx\<lparr>buffer := take (used ctx) (buffer ctx) @ take tw data @ drop (used ctx + tw) (buffer ctx),
         used := used ctx + tw\<rparr>"

text \<open>A sink that rejects everything, and an open root object used as a concrete input.\<close>

definition never_accept :: sjson_send_callback_t where
  "never_accept n bytes = False"

definition open_object_context :: sjson_context_t where
  "open_object_context =
     \<lparr>buffer = CHR 0x7B # replicate 15 (CHR 0x00), buffer_size = 16, used = 1,
      send_callback = always_accept,
      depth_stack = CHR 0x7D # replicate 8 (CHR 0x00), depth = 1, max_depth = 8,
      needs_comma = replicate 9 False, finalized = False, sink_calls = 0, sink_bytes = []\<rparr>"

text \<open>
  What every add operation leaves alone: the finalized flag, the callback and
  well-formedness. A result keeps the mode if the context it returns does, and if it is
  returned at all from a well-formed context.
\<close>

definition keeps_mode :: "sjson_context_t \<Rightarrow> sjson_context_t \<Rightarrow> bool" where
  "keeps_mode ctx ctx' \<longleftrightarrow>
     finalized ctx' = finalized ctx \<and> send_callback ctx' = send_callback ctx \<and>
     (well_formed ctx \<longrightarrow> well_formed ctx')"

definition result_keeps_mode :: "sjson_context_t \<Rightarrow> sjson_result \<Rightarrow> bool" where
  "result_keeps_mode ctx r \<longleftrightarrow>
     (\<forall>s ctx'. r = Some (s, ctx') \<longrightarrow> keeps_mode ctx ctx') \<and> (well_formed ctx \<longrightarrow> r \<noteq> None)"

text \<open>The invariant of finalized contexts.\<close>

definition finalized_inv :: "sjson_context_t \<Rightarrow> bool" where
  "finalized_inv ctx \<longleftrightarrow>
     (finalized ctx \<longrightarrow> depth ctx = 0 \<and> (accepting ctx \<longrightarrow> used ctx = 0))"

text \<open>
  The contexts a caller can reach: those left by an initialization whose arguments pass the
  parameter check, on a buffer of at least \<open>sz\<close> bytes, and those left by any operation on a
  reachable context. An initialization may start from any context, a reachable one included,
  and is taken with any opening and closing character, which covers \<^verbatim>\<open>sjson_InitObject\<close>
  and \<^verbatim>\<open>sjson_InitArray\<close>.
\<close>

inductive reachable :: "('d \<Rightarrow> 'f) \<Rightarrow> ('f \<Rightarrow> string) \<Rightarrow> sjson_context_t \<Rightarrow> bool"
  for to_float :: "'d \<Rightarrow> 'f" and fmt_f :: "'f \<Rightarrow> string" where
  reachable_init:
    "sjson_Init opener closer ctx0 (Some buf) sz (Some callback) = Some (s, ctx) \<Longrightarrow>
     0 < sz \<Longrightarrow> sz \<le> length buf \<Longrightarrow> reachable to_float fmt_f ctx"
| reachable_step:
    "reachable to_float fmt_f ctx \<Longrightarrow> apply_op to_float fmt_f x ctx = Some (s, ctx') \<Longrightarrow>
     reachable to_float fmt_f ctx'"

text \<open>A stand-in for the float conversion, for concrete runs without floats.\<close>

definition zero_fmt :: "unit \<Rightarrow> string" where
  "zero_fmt v = ''0.000000''"

text \<open>
  Two contexts are \<open>similar\<close> when both are well-formed at an accepting sink, have emitted
  the same bytes and agree on \<open>control\<close>; they may differ in the size and the filling of
  their buffers. Two results are similar when they return the same status and similar
  contexts.
\<close>

definition good :: "sjson_context_t \<Rightarrow> bool" where
  "good ctx \<longleftrightarrow> well_formed ctx \<and> accepting ctx"

definition similar :: "sjson_context_t \<Rightarrow> sjson_context_t \<Rightarrow> bool" where
  "similar c1 c2 \<longleftrightarrow> good c1 \<and> good c2 \<and> emitted c1 = emitted c2 \<and> control c1 = control c2"

definition results_similar :: "sjson_result \<Rightarrow> sjson_result \<Rightarrow> bool" where
  "results_similar r1 r2 \<longleftrightarrow>
     (\<exists>s c1 c2. r1 = Some (s, c1) \<and> r2 = Some (s, c2) \<and> similar c1 c2)"

declare dec_digits.simps [simp del]

declare bit_length.simps [simp del]

text \<open>The bytes the sink has accepted at the end of a session, and the sessions used below.\<close>

definition sink_output :: "(sjson_status_t list \<times> sjson_context_t) option \<Rightarrow> string option" where
  "sink_output r = map_option (\<lambda>(statuses, ctx). concat (sink_bytes ctx)) r"

definition status_ok_example :: "('f, 'd) sjson_op list" where
  "status_ok_example =
     [Op_AddStringToObject (Some ''status'') (Some ''ok''), Op_AddIntToObject (Some ''count'') 3,
      Op_End]"

definition status_ok_document :: string where
  \<open>status_ok_document = ''{"status":"ok","count":3}''\<close>

definition count_only_example :: "(unit, unit) sjson_op list" where
  "count_only_example = [Op_AddIntToObject (Some ''count'') 3]"

definition open_objects :: "string list \<Rightarrow> ('f, 'd) sjson_op list" where
  "open_objects keys = map (\<lambda>k. Op_AddObjectToObject (Some k)) keys"

text \<open>A context at an accepting sink whose innermost open collection is an object.\<close>

definition in_object :: "sjson_context_t \<Rightarrow> bool" where
  "in_object ctx \<longleftrightarrow>
     good ctx \<and> \<not> finalized ctx \<and> 0 < depth ctx \<and> depth_stack ctx ! (depth ctx - 1) = CHR 0x7D \<and>
     max_depth ctx < length (depth_stack ctx)"

text \<open>
  The same with an array as the innermost open collection, and a context whose innermost
  collection has no member yet.
\<close>

definition in_array :: "sjson_context_t \<Rightarrow> bool" where
  "in_array ctx \<longleftrightarrow>
     good ctx \<and> \<not> finalized ctx \<and> 0 < depth ctx \<and> depth_stack ctx ! (depth ctx - 1) = CHR 0x5D \<and>
     max_depth ctx < length (depth_stack ctx)"

definition no_member_yet :: "sjson_context_t \<Rightarrow> bool" where
  "no_member_yet ctx \<longleftrightarrow> max_depth ctx < length (needs_comma ctx) \<and> \<not> needs_comma ctx ! depth ctx"

text \<open>
  The operation that opens an object or an array under a key, the sequence of such
  operations for a list of kinds and keys, and the keys and sequences used as concrete
  inputs.
\<close>

definition open_collection :: "bool \<Rightarrow> string \<Rightarrow> ('f, 'd) sjson_op" where
  "open_collection as_array k =
     (if as_array then Op_AddArrayToObject (Some k) else Op_AddObjectToObject (Some k))"

definition open_collections :: "(bool \<times> string) list \<Rightarrow> ('f, 'd) sjson_op list" where
  "open_collections specs = map (\<lambda>(as_array, k). open_collection as_array k) specs"

definition six_keys :: "string list" where
  "six_keys = [''a'', ''b'', ''c'', ''d'', ''e'', ''f'']"

definition six_objects_then_array :: "(bool \<times> string) list" where
  "six_objects_then_array = map (Pair False) six_keys @ [(True, ''g'')]"


text \<open>The characters of a decimal numeral.\<close>

definition is_dec_digit :: "char \<Rightarrow> bool" where
  "is_dec_digit c \<longleftrightarrow> c \<in> set ''0123456789''"

section \<open>Properties of the scanner\<close>

subsection \<open>Segmentation under arbitrary chunking\<close>

text \<open>
  Every way of receiving \<open>segmentation_input\<close> passes through the states \<open>rest_state\<close>:
  from the state after \<open>n\<close> bytes, any further bytes up to \<open>n'\<close> lead to the state after
  \<open>n'\<close> bytes. There are nine combinations of consumed prefix and key byte; each is run
  against every later \<open>n'\<close>.
\<close>

lemma classes_ok: "list_all (\<lambda>(lo, ck). list_all (step_ok ck) [lo..<40]) classes"
  by code_simp

lemma step_ok_all:
  assumes "n \<le> n'" "n' < 40"
  shows "step_ok (consumed_at n, key_at n) n'"
proof -
  have c: "\<And>lo ck. (lo, ck) \<in> set classes \<Longrightarrow> lo \<le> n' \<Longrightarrow> step_ok ck n'"
    using classes_ok assms(2) by (auto simp: list_all_iff)
  consider "n < 3" | "3 \<le> n" "n < 7" | "7 \<le> n" "n < 9" | "9 \<le> n" "n < 17"
    | "17 \<le> n" "n < 19" | "19 \<le> n" "n < 29" | "29 \<le> n" "n < 31" | "31 \<le> n" "n < 39"
    | "39 \<le> n"
    by linarith
  then show ?thesis
  proof cases
    case 1
    then show ?thesis using c[of 0 "(0, CHR 0x00)"] assms
      by (simp add: classes_def consumed_at_def key_at_def)
  next
    case 2
    then show ?thesis using c[of 3 "(0, CHR ''a'')"] assms
      by (simp add: classes_def consumed_at_def key_at_def)
  next
    case 3
    then show ?thesis using c[of 7 "(7, CHR ''a'')"] assms
      by (simp add: classes_def consumed_at_def key_at_def)
  next
    case 4
    then show ?thesis using c[of 9 "(7, CHR ''b'')"] assms
      by (simp add: classes_def consumed_at_def key_at_def)
  next
    case 5
    then show ?thesis using c[of 17 "(17, CHR ''b'')"] assms
      by (simp add: classes_def consumed_at_def key_at_def)
  next
    case 6
    then show ?thesis using c[of 19 "(17, CHR ''c'')"] assms
      by (simp add: classes_def consumed_at_def key_at_def)
  next
    case 7
    then show ?thesis using c[of 29 "(29, CHR ''c'')"] assms
      by (simp add: classes_def consumed_at_def key_at_def)
  next
    case 8
    then show ?thesis using c[of 31 "(29, CHR ''e'')"] assms
      by (simp add: classes_def consumed_at_def key_at_def)
  next
    case 9
    then show ?thesis using c[of 39 "(39, CHR ''e'')"] assms
      by (simp add: classes_def consumed_at_def key_at_def)
  qed
qed

lemma step_okD:
  assumes "step_ok (c, k) n'"
  shows "\<exists>p. scan_and_consume (Suc (length (parse_buffer (rest_state c k n'))))
                (rest_state c k n') (take (pairs_at c) segmentation_pairs)
             = Some (0, p, take (pairs_at n') segmentation_pairs) \<and>
           reset_value_tracking_for_parse_state p = rest_state (consumed_at n') (key_at n') n'"
  using assms unfolding step_ok_def
  by (auto split: option.splits simp del: scan_and_consume.simps)

lemma pairs_at_consumed_at: "pairs_at (consumed_at n) = pairs_at n"
  by (simp add: pairs_at_def consumed_at_def)

lemma length_segmentation_input: "length segmentation_input = 39"
  by (simp add: segmentation_input_def)

lemma consumed_at_le: "consumed_at n \<le> n"
  by (simp add: consumed_at_def)

lemma rest_state_append:
  assumes "c \<le> n" "n + length bs \<le> 39" "bs = take (length bs) (drop n segmentation_input)"
    and "reset_value_tracking_for_parse_state p = rest_state c k n"
  shows "reset_value_tracking_for_parse_state (append_bytes p bs) = rest_state c k (n + length bs)"
proof -
  have "take (n + length bs) segmentation_input = take n segmentation_input @ bs"
    using assms(3) by (simp add: take_add)
  then have "drop c (take (n + length bs) segmentation_input)
      = drop c (take n segmentation_input) @ bs"
    using assms(1,2) by (simp add: length_segmentation_input)
  moreover have "reset_value_tracking_for_parse_state (append_bytes p bs)
      = append_bytes (reset_value_tracking_for_parse_state p) bs"
    by (simp add: reset_value_tracking_for_parse_state_def append_bytes_def)
  ultimately show ?thesis
    using assms(4) by (simp add: rest_state_def append_bytes_def fresh_parse_state_def)
qed

lemma feed_chunks_rest:
  assumes "n \<le> 39" "concat bss = drop n segmentation_input"
    and "acc = take (pairs_at n) segmentation_pairs"
    and "reset_value_tracking_for_parse_state p = rest_state (consumed_at n) (key_at n) n"
  shows "\<exists>p'. feed_chunks reset_value_tracking_for_parse_state (0, p, acc) bss
            = Some (0, p', segmentation_pairs) \<and> parse_buffer p' = []"
  using assms
proof (induction bss arbitrary: n p acc)
  case Nil
  then have n: "n = 39" by (simp add: length_segmentation_input)
  have "parse_buffer p = parse_buffer (reset_value_tracking_for_parse_state p)"
    by (simp add: reset_value_tracking_for_parse_state_def)
  with Nil n show ?case
    by (simp add: pairs_at_def segmentation_pairs_def rest_state_def fresh_parse_state_def
        length_segmentation_input consumed_at_def)
next
  case (Cons bs bss)
  let ?n' = "n + length bs"
  from Cons.prems(2) have d: "drop n segmentation_input = bs @ concat bss" by simp
  then have bs: "bs = take (length bs) (drop n segmentation_input)" by simp
  have "length (drop n segmentation_input) = length bs + length (concat bss)"
    using d by simp
  then have n': "?n' \<le> 39" using Cons.prems(1) by (simp add: length_segmentation_input)
  have rest: "concat bss = drop ?n' segmentation_input"
    using d by (metis add.commute append_eq_conv_conj drop_drop)
  let ?p1 = "reset_value_tracking_for_parse_state (append_bytes p bs)"
  have p1: "?p1 = rest_state (consumed_at n) (key_at n) ?n'"
    using rest_state_append[OF consumed_at_le n' bs Cons.prems(4)] .
  have ok: "step_ok (consumed_at n, key_at n) ?n'"
    using step_ok_all[of n ?n'] n' by simp
  from step_okD[OF ok] obtain p' where
    sc: "scan_and_consume (Suc (length (parse_buffer ?p1))) ?p1 acc
           = Some (0, p', take (pairs_at ?n') segmentation_pairs)"
    and p': "reset_value_tracking_for_parse_state p'
           = rest_state (consumed_at ?n') (key_at ?n') ?n'"
    unfolding p1 using Cons.prems(3)
    by (auto simp: pairs_at_consumed_at simp del: scan_and_consume.simps)
  from Cons.IH[OF n' rest refl p'] sc show ?case
    by (simp add: Let_def del: scan_and_consume.simps)
qed

text \<open>
  Claim C1, as amended. However the bytes of \<open>{"a":1,"b":"x,y","c":{"d":1},"e":[1,2]}\<close> are
  cut into successive appends, a caller that resets the value tracking
  (\<^verbatim>\<open>reset_value_tracking_for_parse_state\<close>) before it rescans, scans, and consumes after
  every result of 1, reads exactly the pairs \<open>a \<mapsto> 1\<close>, \<open>b \<mapsto> "x,y"\<close>, \<open>c \<mapsto> {"d":1}\<close>,
  \<open>e \<mapsto> [1,2]\<close> in this order; no scan returns \<open>-1\<close>, and the last scan returns 0 on an
  empty buffer (the closing brace having been consumed as the delimiter of the last pair).
\<close>

theorem segmentation_any_chunking:
  assumes "concat bss = segmentation_input"
  shows "observed (feed_chunks reset_value_tracking_for_parse_state
                     (0, fresh_parse_state [], []) bss)
           = Some (0, [], segmentation_pairs)"
proof -
  have "reset_value_tracking_for_parse_state (fresh_parse_state [])
      = rest_state (consumed_at 0) (key_at 0) 0"
    by (simp add: reset_value_tracking_for_parse_state_def fresh_parse_state_def rest_state_def
        consumed_at_def key_at_def numeral_eq_Suc)
  from feed_chunks_rest[of 0 bss "[]" "fresh_parse_state []", OF _ _ _ this] assms
  show ?thesis by (auto simp: pairs_at_def observed_def)
qed

theorem segmentation_any_chunking_witness:
  "concat (one_byte_chunks segmentation_input) = segmentation_input \<and>
   observed (feed_chunks reset_value_tracking_for_parse_state (0, fresh_parse_state [], [])
     (one_byte_chunks segmentation_input)) = Some (0, [], segmentation_pairs)"
proof -
  have c: "concat (one_byte_chunks segmentation_input) = segmentation_input"
    by (simp add: segmentation_input_def)
  show ?thesis using c segmentation_any_chunking[OF c] by simp
qed

text \<open>
  Claim C1 as stated fails: a caller that only scans and consumes, one byte at a time, gets
  \<open>-1\<close> from the third scan. The second scan has left the state at \<open>PARSE_STATE_IN_KEY\<close>, and
  the entry test of \<^verbatim>\<open>find_key_value_pair\<close> rejects every state but
  \<open>PARSE_STATE_SEEKING_KEY\<close>.
\<close>

theorem segmentation_without_reset_counterexample:
  \<open>observed (feed_chunks id (0, fresh_parse_state [], []) (one_byte_chunks segmentation_input))
     = Some (- 1, ''{"a'', [])\<close>
  by code_simp

subsection \<open>Escaped quotes\<close>

text \<open>
  Claim C7. In the phase \<open>PARSE_STATE_IN_VALUE\<close>, inside a quoted string, a backslash sets
  \<open>escape_next\<close> and the quote after it is skipped: the two bytes leave the state as it was,
  so \<open>in_quotes\<close> is not toggled and the value does not end. The value \<open>"a\"b"\<close> is reported
  as the whole span \<open>"a\"b"\<close>, backslash included.
\<close>

theorem escaped_quote_in_value:
  \<open>(\<forall>p i cs. state p = PARSE_STATE_IN_VALUE \<and> in_quotes p \<and> \<not> escape_next p \<longrightarrow>
      scan_iter p i (CHR 0x5C) = Inr (p\<lparr>escape_next := True\<rparr>) \<and>
      scan_iter (p\<lparr>escape_next := True\<rparr>) (i + 1) (CHR 0x22) = Inr p \<and>
      scan_loop p i (CHR 0x5C # CHR 0x22 # cs) = scan_loop p (i + 2) cs) \<and>
   (case find_key_value_pair (fresh_parse_state escaped_value_input) of
      (r, p) \<Rightarrow> r = 1 \<and> key_string p = ''k'' \<and> value_span p = escaped_value_span)\<close>
proof -
  have c: "(case find_key_value_pair (fresh_parse_state escaped_value_input) of
      (r, p) \<Rightarrow> r = 1 \<and> key_string p = ''k'' \<and> value_span p = escaped_value_span)"
    by code_simp
  have g: "scan_iter p i (CHR 0x5C) = Inr (p\<lparr>escape_next := True\<rparr>) \<and>
      scan_iter (p\<lparr>escape_next := True\<rparr>) (i + 1) (CHR 0x22) = Inr p \<and>
      scan_loop p i (CHR 0x5C # CHR 0x22 # cs) = scan_loop p (i + 2) cs"
    if "state p = PARSE_STATE_IN_VALUE" "in_quotes p" "\<not> escape_next p" for p i cs
  proof -
    have eq: "p\<lparr>escape_next := False\<rparr> = p" using that(3) by (cases p) simp
    show ?thesis using that by (simp add: scan_iter_def eq add.commute)
  qed
  show ?thesis using c g by blast
qed

theorem escaped_quote_in_value_witness:
  "state in_string_value = PARSE_STATE_IN_VALUE \<and> in_quotes in_string_value \<and>
   \<not> escape_next in_string_value \<and>
   scan_loop in_string_value 7 (CHR 0x5C # CHR 0x22 # [CHR ''b'', CHR 0x22, CHR 0x2C])
     = scan_loop in_string_value 9 [CHR ''b'', CHR 0x22, CHR 0x2C] \<and>
   fst (scan_loop in_string_value 7 (CHR 0x5C # CHR 0x22 # [CHR ''b'', CHR 0x22, CHR 0x2C])) = 1"
proof -
  have h: "state in_string_value = PARSE_STATE_IN_VALUE \<and> in_quotes in_string_value \<and>
     \<not> escape_next in_string_value"
    by (simp add: in_string_value_def fresh_parse_state_def)
  have e: "fst (scan_loop in_string_value 9 [CHR ''b'', CHR 0x22, CHR 0x2C]) = 1"
    by (simp add: in_string_value_def fresh_parse_state_def scan_iter_def)
  from escaped_quote_in_value h
  have "scan_loop in_string_value 7 (CHR 0x5C # CHR 0x22 # [CHR ''b'', CHR 0x22, CHR 0x2C])
     = scan_loop in_string_value (7 + 2) [CHR ''b'', CHR 0x22, CHR 0x2C]"
    by blast
  with h e show ?thesis by simp
qed

text \<open>
  Claim C8 does not hold of the code. \<open>in_quotes\<close> is set only when a string value starts,
  never for a key, so in the phase \<open>PARSE_STATE_IN_KEY\<close> a backslash is stored as an ordinary
  key byte and the quote after it ends the key. On \<open>{"a\"b":1,\<close> the key ends as \<open>a\\<close>
  after four bytes, and the scan then returns \<open>-1\<close> at the byte \<open>b\<close>.
\<close>

theorem escaped_quote_in_key_ends_key:
  \<open>(case scan_loop (fresh_parse_state escaped_key_input) 0 (''{"a'' @ [CHR 0x5C] @ ''"'') of
      (r, p) \<Rightarrow> r = 0 \<and> state p = PARSE_STATE_SEEKING_COLON \<and> \<not> in_quotes p \<and>
                 \<not> escape_next p \<and> key_string p = ''a'' @ [CHR 0x5C]) \<and>
   fst (find_key_value_pair (fresh_parse_state escaped_key_input)) = - 1\<close>
  by code_simp

section \<open>Properties of the writer\<close>

subsection \<open>The copy loop\<close>

lemma write_loop_Nil: "write_loop ctx [] = Some (SJSON_OK, ctx)"
  by (simp add: write_loop.simps)

lemma write_loop_stuck: "data \<noteq> [] \<Longrightarrow> buffer_size ctx \<le> used ctx \<Longrightarrow> write_loop ctx data = None"
  by (simp add: write_loop.simps)

lemma write_loop_unfold:
  assumes "data \<noteq> []" "used ctx < buffer_size ctx"
  shows "write_loop ctx data =
     (let tw = (if length data < buffer_size ctx - used ctx then length data
                else buffer_size ctx - used ctx);
          ctx1 = copy_in ctx tw data
      in if used ctx1 = buffer_size ctx
         then (case sjson_Flush ctx1 of
                 (status, ctx2) \<Rightarrow>
                   if status \<noteq> SJSON_OK then Some (status, ctx2)
                   else write_loop ctx2 (drop tw data))
         else write_loop ctx1 (drop tw data))"
  using assms
  by (subst write_loop.simps) (simp add: Let_def copy_in_def)

lemma sjson_Flush_frame:
  assumes "sjson_Flush ctx = (s, ctx')"
  shows "control ctx' = control ctx \<and> send_callback ctx' = send_callback ctx \<and>
         buffer_size ctx' = buffer_size ctx \<and> buffer ctx' = buffer ctx \<and>
         (s = SJSON_OK \<or> s = SJSON_ERROR_BUFFER_FULL) \<and>
         (s = SJSON_OK \<longrightarrow> used ctx' = 0) \<and> (s \<noteq> SJSON_OK \<longrightarrow> used ctx' = used ctx)"
  using assms by (auto simp: sjson_Flush_def control_def split: if_splits)

lemma write_loop_frame:
  "write_loop ctx data = Some (s, ctx') \<Longrightarrow>
     control ctx' = control ctx \<and> send_callback ctx' = send_callback ctx \<and>
     buffer_size ctx' = buffer_size ctx \<and> (s = SJSON_OK \<or> s = SJSON_ERROR_BUFFER_FULL)"
proof (induction "length data" arbitrary: ctx data rule: less_induct)
  case less
  show ?case
  proof (cases "data = []")
    case True
    with less.prems show ?thesis by (simp add: write_loop_Nil)
  next
    case False
    have nf: "used ctx < buffer_size ctx"
      using less.prems False write_loop_stuck[of data ctx] by (cases "buffer_size ctx \<le> used ctx") auto
    define tw where "tw = (if length data < buffer_size ctx - used ctx then length data
                           else buffer_size ctx - used ctx)"
    define ctx1 where "ctx1 = copy_in ctx tw data"
    have tw: "0 < tw" using False nf by (simp add: tw_def)
    then have shorter: "length (drop tw data) < length data" using False by simp
    have c1: "control ctx1 = control ctx" "send_callback ctx1 = send_callback ctx"
      "buffer_size ctx1 = buffer_size ctx"
      by (simp_all add: ctx1_def copy_in_def control_def)
    obtain st ctx2 where fl: "sjson_Flush ctx1 = (st, ctx2)" by (cases "sjson_Flush ctx1")
    note fr = sjson_Flush_frame[OF fl]
    have u: "write_loop ctx data =
        (if used ctx1 = buffer_size ctx
         then (if st \<noteq> SJSON_OK then Some (st, ctx2) else write_loop ctx2 (drop tw data))
         else write_loop ctx1 (drop tw data))"
      using write_loop_unfold[OF False nf] fl by (simp add: Let_def tw_def ctx1_def)
    consider (a) "used ctx1 = buffer_size ctx" "st \<noteq> SJSON_OK"
      | (b) "used ctx1 = buffer_size ctx" "st = SJSON_OK"
      | (c) "used ctx1 \<noteq> buffer_size ctx" by blast
    then show ?thesis
    proof cases
      case a
      with u less.prems fr c1 show ?thesis by auto
    next
      case b
      with u less.prems have "write_loop ctx2 (drop tw data) = Some (s, ctx')" by simp
      from less.hyps[OF shorter this] fr c1 show ?thesis by simp
    next
      case c
      with u less.prems have "write_loop ctx1 (drop tw data) = Some (s, ctx')" by simp
      from less.hyps[OF shorter this] c1 show ?thesis by simp
    qed
  qed
qed

lemma write_data_frame:
  assumes "write_data ctx data = Some (s, ctx')"
  shows "control ctx' = control ctx \<and> send_callback ctx' = send_callback ctx \<and>
     buffer_size ctx' = buffer_size ctx \<and> (s = SJSON_OK \<or> s = SJSON_ERROR_BUFFER_FULL)"
proof (cases "buffer_size ctx = used ctx")
  case False
  with assms show ?thesis by (simp add: write_data_def write_loop_frame)
next
  case True
  obtain st ctx1 where fl: "sjson_Flush ctx = (st, ctx1)" by (cases "sjson_Flush ctx")
  note fr = sjson_Flush_frame[OF fl]
  show ?thesis
  proof (cases "st = SJSON_OK")
    case True
    with assms \<open>buffer_size ctx = used ctx\<close> fl have "write_loop ctx1 data = Some (s, ctx')"
      by (simp add: write_data_def)
    from write_loop_frame[OF this] fr show ?thesis by simp
  next
    case False
    with assms \<open>buffer_size ctx = used ctx\<close> fl fr show ?thesis
      by (auto simp: write_data_def)
  qed
qed

lemma sjson_Flush_accepting:
  assumes "well_formed ctx" "accepting ctx"
  shows "\<exists>ctx'. sjson_Flush ctx = (SJSON_OK, ctx') \<and> well_formed ctx' \<and> accepting ctx' \<and>
           used ctx' = 0 \<and> control ctx' = control ctx \<and> emitted ctx' = emitted ctx \<and>
           buffer_size ctx' = buffer_size ctx"
  using assms
  by (auto simp: sjson_Flush_def well_formed_def accepting_def control_def emitted_def)

lemma copy_in_emitted:
  assumes "well_formed ctx" "tw \<le> length data" "used ctx + tw \<le> buffer_size ctx"
  shows "emitted (copy_in ctx tw data) = emitted ctx @ take tw data"
    and "well_formed (copy_in ctx tw data)"
  using assms by (auto simp: emitted_def copy_in_def well_formed_def)

lemma write_loop_accepting:
  assumes "well_formed ctx" "accepting ctx" "used ctx < buffer_size ctx"
  shows "\<exists>ctx'. write_loop ctx data = Some (SJSON_OK, ctx') \<and> well_formed ctx' \<and> accepting ctx' \<and>
           control ctx' = control ctx \<and> emitted ctx' = emitted ctx @ data \<and>
           buffer_size ctx' = buffer_size ctx"
  using assms
proof (induction "length data" arbitrary: ctx data rule: less_induct)
  case less
  show ?case
  proof (cases "data = []")
    case True
    with less.prems show ?thesis by (simp add: write_loop_Nil)
  next
    case False
    note nf = less.prems(3)
    define tw where "tw = (if length data < buffer_size ctx - used ctx then length data
                           else buffer_size ctx - used ctx)"
    define ctx1 where "ctx1 = copy_in ctx tw data"
    have tw: "0 < tw" "tw \<le> length data" "used ctx + tw \<le> buffer_size ctx"
      using False nf by (auto simp: tw_def)
    then have shorter: "length (drop tw data) < length data" using False by simp
    have c1: "control ctx1 = control ctx" "accepting ctx1" "buffer_size ctx1 = buffer_size ctx"
      "used ctx1 = used ctx + tw"
      using less.prems(2) by (simp_all add: ctx1_def copy_in_def control_def accepting_def)
    have e1: "emitted ctx1 = emitted ctx @ take tw data" and w1: "well_formed ctx1"
      unfolding ctx1_def using copy_in_emitted[OF less.prems(1) tw(2,3)] by simp_all
    from sjson_Flush_accepting[OF w1 c1(2)] obtain ctx2 where
      fl: "sjson_Flush ctx1 = (SJSON_OK, ctx2)" and w2: "well_formed ctx2" "accepting ctx2"
      and u2: "used ctx2 = 0" and c2: "control ctx2 = control ctx1" "emitted ctx2 = emitted ctx1"
        "buffer_size ctx2 = buffer_size ctx1"
      by blast
    have u: "write_loop ctx data =
        (if used ctx1 = buffer_size ctx then write_loop ctx2 (drop tw data)
         else write_loop ctx1 (drop tw data))"
      using write_loop_unfold[OF False nf] fl by (simp add: Let_def tw_def ctx1_def)
    show ?thesis
    proof (cases "used ctx1 = buffer_size ctx")
      case True
      have "used ctx2 < buffer_size ctx2" using u2 c2(3) c1(3) nf by simp
      from less.hyps[OF shorter w2 this] True u c1 c2 e1 show ?thesis
        by (auto simp: append_take_drop_id)
    next
      case False
      have "used ctx1 < buffer_size ctx1" using False c1 tw(3) by simp
      from less.hyps[OF shorter w1 c1(2) this] False u c1 e1 show ?thesis
        by (auto simp: append_take_drop_id)
    qed
  qed
qed

lemma write_data_accepting:
  assumes "well_formed ctx" "accepting ctx"
  shows "\<exists>ctx'. write_data ctx data = Some (SJSON_OK, ctx') \<and> well_formed ctx' \<and> accepting ctx' \<and>
           control ctx' = control ctx \<and> emitted ctx' = emitted ctx @ data \<and>
           buffer_size ctx' = buffer_size ctx"
proof (cases "buffer_size ctx = used ctx")
  case False
  then have "used ctx < buffer_size ctx" using assms(1) by (simp add: well_formed_def)
  from write_loop_accepting[OF assms this] False show ?thesis by (simp add: write_data_def)
next
  case True
  from sjson_Flush_accepting[OF assms] obtain ctx1 where
    fl: "sjson_Flush ctx = (SJSON_OK, ctx1)" and w: "well_formed ctx1" "accepting ctx1"
    and u: "used ctx1 = 0" and c: "control ctx1 = control ctx" "emitted ctx1 = emitted ctx"
      "buffer_size ctx1 = buffer_size ctx"
    by blast
  have "used ctx1 < buffer_size ctx1" using u w(1) by (simp add: well_formed_def)
  from write_loop_accepting[OF w this, of data] True fl c show ?thesis
    by (auto simp: write_data_def)
qed

subsection \<open>Parameter checks\<close>

lemma init_open_object:
  "sjson_InitObject blank_context (Some (replicate 16 (CHR 0x00))) 16 (Some always_accept)
     = Some (SJSON_OK, open_object_context)"
  by (simp add: sjson_InitObject_def sjson_Init_def blank_context_def open_object_context_def
      SJSON_MAX_DEPTH_def write_char_def write_data_def write_loop.simps sjson_Flush_def
      and_then_def Let_def numeral_eq_Suc)

text \<open>
  Claim C9, as amended. On every context \<^verbatim>\<open>sjson_AddArrayToObject\<close> with a key of length zero
  returns \<open>SJSON_ERROR_INVALID_PARAM\<close> and leaves the context unchanged, and each of the eight
  operations that take a key returns \<open>SJSON_ERROR_INVALID_PARAM\<close> and leaves the context
  unchanged when the key is absent (a NULL pointer).
\<close>

theorem empty_key_rejected_by_AddArrayToObject_only:
  "sjson_AddArrayToObject ctx (Some []) = Some (SJSON_ERROR_INVALID_PARAM, ctx) \<and>
   sjson_AddStringToObject ctx None val = Some (SJSON_ERROR_INVALID_PARAM, ctx) \<and>
   sjson_AddIntToObject ctx None ival = Some (SJSON_ERROR_INVALID_PARAM, ctx) \<and>
   sjson_AddFloatToObject fmt_f ctx None fval = Some (SJSON_ERROR_INVALID_PARAM, ctx) \<and>
   sjson_AddRawToObject ctx None val = Some (SJSON_ERROR_INVALID_PARAM, ctx) \<and>
   sjson_AddIntArrayToObject ctx None ivals = Some (SJSON_ERROR_INVALID_PARAM, ctx) \<and>
   sjson_AddFloatArrayToObject fmt_f ctx None fvals = Some (SJSON_ERROR_INVALID_PARAM, ctx) \<and>
   sjson_AddArrayToObject ctx None = Some (SJSON_ERROR_INVALID_PARAM, ctx) \<and>
   sjson_AddObjectToObject ctx None = Some (SJSON_ERROR_INVALID_PARAM, ctx)"
  by (simp add: sjson_AddArrayToObject_def sjson_AddStringToObject_def sjson_AddIntToObject_def
      sjson_AddFloatToObject_def sjson_AddRawToObject_def sjson_AddIntArrayToObject_def
      sjson_AddFloatArrayToObject_def add_array_to_object_def sjson_AddObjectToObject_def)

theorem empty_key_rejected_by_AddArrayToObject_only_witness:
  "sjson_AddArrayToObject open_object_context (Some [])
     = Some (SJSON_ERROR_INVALID_PARAM, open_object_context) \<and>
   sjson_AddStringToObject open_object_context None (Some ''v'')
     = Some (SJSON_ERROR_INVALID_PARAM, open_object_context) \<and>
   sjson_AddIntToObject open_object_context None 3
     = Some (SJSON_ERROR_INVALID_PARAM, open_object_context) \<and>
   sjson_AddFloatToObject zero_fmt open_object_context None ()
     = Some (SJSON_ERROR_INVALID_PARAM, open_object_context) \<and>
   sjson_AddRawToObject open_object_context None (Some ''v'')
     = Some (SJSON_ERROR_INVALID_PARAM, open_object_context) \<and>
   sjson_AddIntArrayToObject open_object_context None (Some [1])
     = Some (SJSON_ERROR_INVALID_PARAM, open_object_context) \<and>
   sjson_AddFloatArrayToObject zero_fmt open_object_context None (Some [()])
     = Some (SJSON_ERROR_INVALID_PARAM, open_object_context) \<and>
   sjson_AddArrayToObject open_object_context None
     = Some (SJSON_ERROR_INVALID_PARAM, open_object_context) \<and>
   sjson_AddObjectToObject open_object_context None
     = Some (SJSON_ERROR_INVALID_PARAM, open_object_context)"
  by (rule empty_key_rejected_by_AddArrayToObject_only)

text \<open>
  Claim C9 as stated fails: only \<^verbatim>\<open>sjson_AddArrayToObject\<close> tests the length of the key. In
  an open object \<^verbatim>\<open>sjson_AddStringToObject\<close>, \<^verbatim>\<open>sjson_AddIntToObject\<close> and
  \<^verbatim>\<open>sjson_AddObjectToObject\<close> succeed with the key \<open>""\<close>, and the member \<open>"":3\<close> is written.
\<close>

theorem empty_key_accepted_counterexample:
  "map_option fst (sjson_AddStringToObject open_object_context (Some []) (Some ''v'')) = Some SJSON_OK \<and>
   map_option fst (sjson_AddIntToObject open_object_context (Some []) 3) = Some SJSON_OK \<and>
   map_option fst (sjson_AddObjectToObject open_object_context (Some [])) = Some SJSON_OK \<and>
   map_option (\<lambda>r. emitted (snd r)) (sjson_AddIntToObject open_object_context (Some []) 3) = Some (''{'' @ [CHR 0x22, CHR 0x22] @ '':3'')"
  by code_simp

subsection \<open>A failed close\<close>

lemma write_char_frame:
  assumes "write_char ctx c = Some (s, ctx')"
  shows "control ctx' = control ctx \<and> send_callback ctx' = send_callback ctx \<and>
     buffer_size ctx' = buffer_size ctx \<and> (s = SJSON_OK \<or> s = SJSON_ERROR_BUFFER_FULL)"
  using assms write_data_frame unfolding write_char_def by blast

text \<open>
  What \<^verbatim>\<open>sjson_Close\<close> restores when writing the closing token returns a failure: it returns
  that failure and a context whose depth, closer stack, comma flags and finalized flag are
  those before the call. The buffer is not among them.
\<close>

lemma close_failed_write_restores:
  assumes "\<not> finalized ctx" and "0 < depth ctx"
    and "write_char (ctx\<lparr>depth := depth ctx - 1\<rparr>) (depth_stack ctx ! (depth ctx - 1))
           = Some (status, ctx1)"
    and "status \<noteq> SJSON_OK"
  shows "\<exists>ctx'. sjson_Close ctx = Some (status, ctx') \<and> depth ctx' = depth ctx \<and>
           depth_stack ctx' = depth_stack ctx \<and> needs_comma ctx' = needs_comma ctx \<and>
           finalized ctx' = finalized ctx \<and> max_depth ctx' = max_depth ctx"
proof -
  from write_char_frame[OF assms(3)]
  have "control ctx1 = control (ctx\<lparr>depth := depth ctx - 1\<rparr>)" by simp
  then have c: "depth ctx1 = depth ctx - 1" "depth_stack ctx1 = depth_stack ctx"
    "needs_comma ctx1 = needs_comma ctx" "finalized ctx1 = finalized ctx"
    "max_depth ctx1 = max_depth ctx"
    by (simp_all add: control_def)
  have "sjson_Close ctx = Some (status, ctx1\<lparr>depth := depth ctx1 + 1\<rparr>)"
    using assms by (simp add: sjson_Close_def Let_def)
  with c assms(2) show ?thesis by simp
qed


subsection \<open>Every operation returns, and add operations keep the mode\<close>

lemma copy_in_well_formed:
  assumes "well_formed ctx" "used ctx + tw \<le> buffer_size ctx" "tw \<le> length data"
  shows "well_formed (copy_in ctx tw data)"
  using assms by (auto simp: copy_in_def well_formed_def)

lemma sjson_Flush_well_formed:
  assumes "sjson_Flush ctx = (s, ctx')" "well_formed ctx"
  shows "well_formed ctx'"
  using assms by (auto simp: sjson_Flush_def well_formed_def split: if_splits)

lemma write_loop_total:
  assumes "well_formed ctx" "used ctx < buffer_size ctx"
  shows "\<exists>s ctx'. write_loop ctx data = Some (s, ctx') \<and> well_formed ctx'"
  using assms
proof (induction "length data" arbitrary: ctx data rule: less_induct)
  case less
  show ?case
  proof (cases "data = []")
    case True
    with less.prems show ?thesis by (simp add: write_loop_Nil)
  next
    case False
    note nf = less.prems(2)
    define tw where "tw = (if length data < buffer_size ctx - used ctx then length data
                           else buffer_size ctx - used ctx)"
    define ctx1 where "ctx1 = copy_in ctx tw data"
    have tw: "0 < tw" "used ctx + tw \<le> buffer_size ctx" "tw \<le> length data"
      using False nf by (auto simp: tw_def)
    then have shorter: "length (drop tw data) < length data" using False by simp
    have w1: "well_formed ctx1" unfolding ctx1_def
      by (rule copy_in_well_formed[OF less.prems(1) tw(2,3)])
    have c1: "buffer_size ctx1 = buffer_size ctx" "used ctx1 = used ctx + tw"
      by (simp_all add: ctx1_def copy_in_def)
    obtain st ctx2 where fl: "sjson_Flush ctx1 = (st, ctx2)" by (cases "sjson_Flush ctx1")
    note fr = sjson_Flush_frame[OF fl] and w2 = sjson_Flush_well_formed[OF fl w1]
    have u: "write_loop ctx data =
        (if used ctx1 = buffer_size ctx
         then (if st \<noteq> SJSON_OK then Some (st, ctx2) else write_loop ctx2 (drop tw data))
         else write_loop ctx1 (drop tw data))"
      using write_loop_unfold[OF False nf] fl by (simp add: Let_def tw_def ctx1_def)
    consider (a) "used ctx1 = buffer_size ctx" "st \<noteq> SJSON_OK"
      | (b) "used ctx1 = buffer_size ctx" "st = SJSON_OK"
      | (c) "used ctx1 \<noteq> buffer_size ctx" by blast
    then show ?thesis
    proof cases
      case a
      with u w2 show ?thesis by simp
    next
      case b
      have "used ctx2 < buffer_size ctx2" using fr b c1 nf by simp
      from less.hyps[OF shorter w2 this] u b show ?thesis by simp
    next
      case c
      have "used ctx1 < buffer_size ctx1" using c c1 tw(2) by simp
      from less.hyps[OF shorter w1 this] u c show ?thesis by simp
    qed
  qed
qed

lemma write_data_total:
  assumes "well_formed ctx"
  shows "\<exists>s ctx'. write_data ctx data = Some (s, ctx') \<and> well_formed ctx'"
proof (cases "buffer_size ctx = used ctx")
  case False
  then have "used ctx < buffer_size ctx" using assms by (simp add: well_formed_def)
  from write_loop_total[OF assms this] False show ?thesis by (simp add: write_data_def)
next
  case True
  obtain st ctx1 where fl: "sjson_Flush ctx = (st, ctx1)" by (cases "sjson_Flush ctx")
  note fr = sjson_Flush_frame[OF fl] and w1 = sjson_Flush_well_formed[OF fl assms]
  show ?thesis
  proof (cases "st = SJSON_OK")
    case ok: True
    then have "used ctx1 < buffer_size ctx1" using fr w1 by (simp add: well_formed_def)
    from write_loop_total[OF w1 this, of data] True fl ok show ?thesis
      by (simp add: write_data_def)
  next
    case False
    with True fl w1 show ?thesis by (simp add: write_data_def)
  qed
qed

lemma rkm_Some: "keeps_mode ctx ctx' \<Longrightarrow> result_keeps_mode ctx (Some (s, ctx'))"
  by (simp add: result_keeps_mode_def)

lemma rkm_and_then:
  assumes "result_keeps_mode ctx r" "\<And>ctx1. keeps_mode ctx ctx1 \<Longrightarrow> result_keeps_mode ctx (rest ctx1)"
  shows "result_keeps_mode ctx (and_then r rest)"
  using assms unfolding result_keeps_mode_def and_then_def
  by (auto split: option.splits if_splits)

lemma rkm_write_data:
  assumes "keeps_mode ctx ctx1"
  shows "result_keeps_mode ctx (write_data ctx1 data)"
  using assms write_data_frame[of ctx1 data] write_data_total[of ctx1 data]
  unfolding result_keeps_mode_def keeps_mode_def control_def by fastforce

lemma rkm_write_str: "keeps_mode ctx ctx1 \<Longrightarrow> result_keeps_mode ctx (write_str ctx1 str)"
  unfolding write_str_def by (rule rkm_write_data)

lemma rkm_write_char: "keeps_mode ctx ctx1 \<Longrightarrow> result_keeps_mode ctx (write_char ctx1 c)"
  unfolding write_char_def by (rule rkm_write_data)

lemma keeps_mode_refl: "keeps_mode ctx ctx"
  by (simp add: keeps_mode_def)

lemma keeps_mode_updates:
  "keeps_mode ctx ctx1 \<Longrightarrow> keeps_mode ctx (ctx1\<lparr>needs_comma := nc\<rparr>)"
  "keeps_mode ctx ctx1 \<Longrightarrow> keeps_mode ctx (push_closer ctx1 c)"
  by (simp_all add: keeps_mode_def push_closer_def Let_def well_formed_def)

lemma rkm_add_comma:
  "keeps_mode ctx ctx1 \<Longrightarrow> result_keeps_mode ctx (add_comma_if_needed ctx1)"
  unfolding add_comma_if_needed_def
  by (auto intro!: rkm_and_then rkm_write_char rkm_Some keeps_mode_updates)

lemma rkm_write_elements:
  "keeps_mode ctx ctx1 \<Longrightarrow> result_keeps_mode ctx (write_elements fmt ctx1 i vs)"
  by (induction vs arbitrary: ctx1 i)
    (auto simp: Let_def intro!: rkm_and_then rkm_write_str rkm_Some)

lemmas rkm_intros = rkm_and_then rkm_write_char rkm_write_str rkm_Some keeps_mode_updates
  rkm_add_comma rkm_write_elements keeps_mode_refl

lemma rkm_AddStringToObject: "result_keeps_mode ctx (sjson_AddStringToObject ctx k v)"
  unfolding sjson_AddStringToObject_def
  by (auto simp: Let_def split: option.splits intro!: rkm_intros)

lemma rkm_AddIntToObject: "result_keeps_mode ctx (sjson_AddIntToObject ctx k v)"
  unfolding sjson_AddIntToObject_def
  by (auto simp: Let_def split: option.splits intro!: rkm_intros)

lemma rkm_AddFloatToObject: "result_keeps_mode ctx (sjson_AddFloatToObject fmt_f ctx k v)"
  unfolding sjson_AddFloatToObject_def
  by (auto simp: Let_def split: option.splits intro!: rkm_intros)

lemma rkm_add_array_to_object: "result_keeps_mode ctx (add_array_to_object fmt ctx k vs)"
  unfolding add_array_to_object_def
  by (auto simp: Let_def split: option.splits intro!: rkm_intros)

lemma rkm_AddArrayToObject: "result_keeps_mode ctx (sjson_AddArrayToObject ctx k)"
  unfolding sjson_AddArrayToObject_def
  by (auto simp: Let_def split: option.splits intro!: rkm_intros)

lemma rkm_AddObjectToObject: "result_keeps_mode ctx (sjson_AddObjectToObject ctx k)"
  unfolding sjson_AddObjectToObject_def
  by (auto simp: Let_def split: option.splits intro!: rkm_intros)

lemma rkm_AddRawToObject: "result_keeps_mode ctx (sjson_AddRawToObject ctx k v)"
  unfolding sjson_AddRawToObject_def
  by (auto simp: Let_def split: option.splits intro!: rkm_intros)

lemma rkm_AddIntToArray: "result_keeps_mode ctx (sjson_AddIntToArray ctx v)"
  unfolding sjson_AddIntToArray_def
  by (auto simp: Let_def split: option.splits intro!: rkm_intros)

lemma rkm_AddFloatToArray: "result_keeps_mode ctx (sjson_AddFloatToArray fmt_f ctx v)"
  unfolding sjson_AddFloatToArray_def
  by (auto simp: Let_def split: option.splits intro!: rkm_intros)

lemma rkm_AddStringToArray: "result_keeps_mode ctx (sjson_AddStringToArray ctx v)"
  unfolding sjson_AddStringToArray_def
  by (auto simp: Let_def split: option.splits intro!: rkm_intros)

subsection \<open>Finalized contexts\<close>

lemma finalized_check: "finalized ctx \<Longrightarrow> check_object_state ctx = SJSON_ERROR_INVALID_STATE"
  "finalized ctx \<Longrightarrow> check_array_state ctx = SJSON_ERROR_INVALID_STATE"
  by (simp_all add: check_object_state_def check_array_state_def)

lemma add_op_inv:
  assumes "result_keeps_mode ctx r" "finalized ctx \<Longrightarrow> \<exists>s. r = Some (s, ctx)"
    and "r = Some (s, ctx')" "finalized_inv ctx"
  shows "finalized_inv ctx'"
proof (cases "finalized ctx")
  case True
  with assms(2,3) have "ctx' = ctx" by auto
  with assms(4) show ?thesis by simp
next
  case False
  with assms(1,3) have "\<not> finalized ctx'"
    by (auto simp: result_keeps_mode_def keeps_mode_def)
  then show ?thesis by (simp add: finalized_inv_def)
qed

lemma sjson_Flush_inv:
  assumes "sjson_Flush ctx = (s, ctx')" "finalized_inv ctx"
  shows "finalized_inv ctx'"
  using assms
  by (auto simp: sjson_Flush_def finalized_inv_def accepting_def split: if_splits)

lemma sjson_Close_inv:
  assumes "sjson_Close ctx = Some (s, ctx')" "finalized_inv ctx"
  shows "finalized_inv ctx'"
proof (cases "finalized ctx \<or> depth ctx = 0")
  case True
  with assms show ?thesis by (simp add: sjson_Close_def)
next
  case False
  define ctx1 where "ctx1 = ctx\<lparr>depth := depth ctx - 1\<rparr>"
  from assms(1) False obtain st ctx2 where
    w: "write_char ctx1 (depth_stack ctx1 ! depth ctx1) = Some (st, ctx2)"
    by (auto simp: sjson_Close_def Let_def ctx1_def split: option.splits)
  from write_char_frame[OF w] have c: "finalized ctx2 = finalized ctx" "depth ctx2 = depth ctx - 1"
    "send_callback ctx2 = send_callback ctx"
    by (simp_all add: control_def ctx1_def)
  have r: "Some (s, ctx') =
      (if st \<noteq> SJSON_OK then Some (st, ctx2\<lparr>depth := depth ctx2 + 1\<rparr>)
       else if depth ctx2 = 0 then Some (sjson_Flush (ctx2\<lparr>finalized := True\<rparr>))
       else Some (SJSON_OK, ctx2\<lparr>needs_comma := (needs_comma ctx2)[depth ctx2 := True]\<rparr>))"
    using assms(1) False w by (simp add: sjson_Close_def Let_def ctx1_def)
  consider (a) "st \<noteq> SJSON_OK" | (b) "st = SJSON_OK" "depth ctx2 = 0"
    | (c) "st = SJSON_OK" "depth ctx2 \<noteq> 0" by blast
  then show ?thesis
  proof cases
    case a
    with r c False show ?thesis by (auto simp: finalized_inv_def)
  next
    case b
    with r have "sjson_Flush (ctx2\<lparr>finalized := True\<rparr>) = (s, ctx')" by simp
    then show ?thesis using b
      by (auto simp: sjson_Flush_def finalized_inv_def accepting_def split: if_splits)
  next
    case c
    with r \<open>finalized ctx2 = finalized ctx\<close> False show ?thesis by (auto simp: finalized_inv_def)
  qed
qed

lemma close_all_inv:
  "close_all n ctx = Some (s, ctx') \<Longrightarrow> finalized_inv ctx \<Longrightarrow> finalized_inv ctx'"
proof (induction n arbitrary: ctx)
  case 0
  then show ?case by (auto split: if_splits)
next
  case (Suc n)
  show ?case
  proof (cases "depth ctx > 0")
    case False
    with Suc.prems show ?thesis by simp
  next
    case True
    with Suc.prems have a: "and_then (sjson_Close ctx) (close_all n) = Some (s, ctx')" by simp
    then obtain st ctx1 where cl: "sjson_Close ctx = Some (st, ctx1)"
      by (auto simp: and_then_def split: option.splits)
    note i1 = sjson_Close_inv[OF cl Suc.prems(2)]
    show ?thesis
    proof (cases "st = SJSON_OK")
      case True
      with a cl have "close_all n ctx1 = Some (s, ctx')" by (simp add: and_then_def)
      from Suc.IH[OF this i1] show ?thesis .
    next
      case False
      with a cl i1 show ?thesis by (simp add: and_then_def)
    qed
  qed
qed

lemma sjson_End_inv:
  assumes "sjson_End ctx = Some (s, ctx')" "finalized_inv ctx"
  shows "finalized_inv ctx'"
  using assms sjson_Flush_inv[of ctx s ctx'] close_all_inv[of "depth ctx" ctx s ctx']
  by (auto simp: sjson_End_def split: if_splits)

lemma apply_op_inv:
  assumes "apply_op to_float fmt_f x ctx = Some (s, ctx')" "finalized_inv ctx"
  shows "finalized_inv ctx'"
proof (cases x)
  case Op_Close
  with assms sjson_Close_inv show ?thesis by simp
next
  case Op_End
  with assms sjson_End_inv show ?thesis by simp
next
  case Op_Flush
  with assms sjson_Flush_inv[of ctx s ctx'] show ?thesis by simp
next
  case (Op_AddStringToObject k v)
  show ?thesis
    by (rule add_op_inv[OF rkm_AddStringToObject[of ctx k v] _ _ assms(2)])
      (use assms(1) Op_AddStringToObject in
        \<open>auto simp: sjson_AddStringToObject_def finalized_check split: option.splits\<close>)
next
  case (Op_AddIntToObject k v)
  show ?thesis
    by (rule add_op_inv[OF rkm_AddIntToObject[of ctx k v] _ _ assms(2)])
      (use assms(1) Op_AddIntToObject in
        \<open>auto simp: sjson_AddIntToObject_def finalized_check split: option.splits\<close>)
next
  case (Op_AddFloatToObject k v)
  show ?thesis
    by (rule add_op_inv[OF rkm_AddFloatToObject[of ctx fmt_f k v] _ _ assms(2)])
      (use assms(1) Op_AddFloatToObject in
        \<open>auto simp: sjson_AddFloatToObject_def finalized_check split: option.splits\<close>)
next
  case (Op_AddNumberToObject k v)
  show ?thesis
    by (rule add_op_inv[OF rkm_AddFloatToObject[of ctx fmt_f k "to_float v"] _ _ assms(2)])
      (use assms(1) Op_AddNumberToObject in
        \<open>auto simp: sjson_AddNumberToObject_def sjson_AddFloatToObject_def finalized_check
           split: option.splits\<close>)
next
  case (Op_AddIntArrayToObject k vs)
  show ?thesis
    by (rule add_op_inv[OF rkm_add_array_to_object[of ctx "\<lambda>v. fmt_ld (sint v)" k vs] _ _ assms(2)])
      (use assms(1) Op_AddIntArrayToObject in
        \<open>auto simp: sjson_AddIntArrayToObject_def add_array_to_object_def finalized_check
           split: option.splits\<close>)
next
  case (Op_AddFloatArrayToObject k vs)
  show ?thesis
    by (rule add_op_inv[OF rkm_add_array_to_object[of ctx fmt_f k vs] _ _ assms(2)])
      (use assms(1) Op_AddFloatArrayToObject in
        \<open>auto simp: sjson_AddFloatArrayToObject_def add_array_to_object_def finalized_check
           split: option.splits\<close>)
next
  case (Op_AddArrayToObject k)
  show ?thesis
    by (rule add_op_inv[OF rkm_AddArrayToObject[of ctx k] _ _ assms(2)])
      (use assms(1) Op_AddArrayToObject in
        \<open>auto simp: sjson_AddArrayToObject_def finalized_check split: option.splits if_splits\<close>)
next
  case (Op_AddObjectToObject k)
  show ?thesis
    by (rule add_op_inv[OF rkm_AddObjectToObject[of ctx k] _ _ assms(2)])
      (use assms(1) Op_AddObjectToObject in
        \<open>auto simp: sjson_AddObjectToObject_def finalized_check split: option.splits\<close>)
next
  case (Op_AddRawToObject k v)
  show ?thesis
    by (rule add_op_inv[OF rkm_AddRawToObject[of ctx k v] _ _ assms(2)])
      (use assms(1) Op_AddRawToObject in
        \<open>auto simp: sjson_AddRawToObject_def finalized_check split: option.splits\<close>)
next
  case (Op_AddIntToArray v)
  show ?thesis
    by (rule add_op_inv[OF rkm_AddIntToArray[of ctx v] _ _ assms(2)])
      (use assms(1) Op_AddIntToArray in
        \<open>auto simp: sjson_AddIntToArray_def finalized_check split: option.splits\<close>)
next
  case (Op_AddFloatToArray v)
  show ?thesis
    by (rule add_op_inv[OF rkm_AddFloatToArray[of ctx fmt_f v] _ _ assms(2)])
      (use assms(1) Op_AddFloatToArray in
        \<open>auto simp: sjson_AddFloatToArray_def finalized_check split: option.splits\<close>)
next
  case (Op_AddStringToArray v)
  show ?thesis
    by (rule add_op_inv[OF rkm_AddStringToArray[of ctx v] _ _ assms(2)])
      (use assms(1) Op_AddStringToArray in
        \<open>auto simp: sjson_AddStringToArray_def finalized_check split: option.splits\<close>)
qed

lemmas writer_eval = sjson_InitObject_def sjson_Init_def SJSON_MAX_DEPTH_def write_char_def
  write_str_def write_data_def write_loop.simps sjson_Flush_def and_then_def Let_def
  sjson_Close_def sjson_End_def never_accept_def always_accept_def

lemma sjson_Init_total:
  assumes "sjson_Init opener closer ctx0 (Some buf) sz (Some callback) = r" "0 < sz" "sz \<le> length buf"
  shows "\<exists>s ctx. r = Some (s, ctx) \<and> well_formed ctx \<and> \<not> finalized ctx"
proof -
  define ctx1 where "ctx1 = ctx0\<lparr>buffer := buf, buffer_size := sz, used := 0,
      send_callback := callback, depth := 0, max_depth := SJSON_MAX_DEPTH, finalized := False,
      depth_stack := replicate (SJSON_MAX_DEPTH + 1) (CHR 0x00),
      needs_comma := replicate (SJSON_MAX_DEPTH + 1) False\<rparr>"
  have w1: "well_formed ctx1" "\<not> finalized ctx1"
    using assms(2,3) by (simp_all add: ctx1_def well_formed_def)
  from write_data_total[OF w1(1), of "[opener]"] obtain st ctx2 where
    w: "write_char ctx1 opener = Some (st, ctx2)" and w2: "well_formed ctx2"
    by (auto simp: write_char_def)
  from write_char_frame[OF w] w1(2) have f2: "\<not> finalized ctx2" by (simp add: control_def)
  have "r = and_then (write_char ctx1 opener)
      (\<lambda>ctx2. Some (SJSON_OK, push_closer ctx2 closer))"
    using assms(1,2) by (simp add: sjson_Init_def ctx1_def Let_def push_closer_def)
  with w w2 f2 show ?thesis
    by (auto simp: and_then_def push_closer_def Let_def well_formed_def)
qed

lemma sjson_Close_total:
  assumes "well_formed ctx"
  shows "\<exists>s ctx'. sjson_Close ctx = Some (s, ctx') \<and> well_formed ctx' \<and>
           (s = SJSON_OK \<longrightarrow> depth ctx' < depth ctx)"
proof (cases "finalized ctx \<or> depth ctx = 0")
  case True
  with assms show ?thesis by (simp add: sjson_Close_def)
next
  case False
  define ctx1 where "ctx1 = ctx\<lparr>depth := depth ctx - 1\<rparr>"
  have w1: "well_formed ctx1" using assms by (simp add: ctx1_def well_formed_def)
  from write_data_total[OF w1] obtain st ctx2 where
    w: "write_char ctx1 (depth_stack ctx1 ! depth ctx1) = Some (st, ctx2)" and w2: "well_formed ctx2"
    unfolding write_char_def by blast
  from write_char_frame[OF w] have d2: "depth ctx2 = depth ctx - 1"
    by (simp add: control_def ctx1_def)
  obtain sf ctx3 where fl: "sjson_Flush (ctx2\<lparr>finalized := True\<rparr>) = (sf, ctx3)"
    by (cases "sjson_Flush (ctx2\<lparr>finalized := True\<rparr>)")
  have w2': "well_formed (ctx2\<lparr>finalized := True\<rparr>)" using w2 by (simp add: well_formed_def)
  note w3 = sjson_Flush_well_formed[OF fl w2'] and f3 = sjson_Flush_frame[OF fl]
  have "sjson_Close ctx =
      (if st \<noteq> SJSON_OK then Some (st, ctx2\<lparr>depth := depth ctx2 + 1\<rparr>)
       else if depth ctx2 = 0 then Some (sf, ctx3)
       else Some (SJSON_OK, ctx2\<lparr>needs_comma := (needs_comma ctx2)[depth ctx2 := True]\<rparr>))"
    using False w fl by (simp add: sjson_Close_def Let_def ctx1_def)
  with w2 w3 f3 d2 False show ?thesis
    by (auto simp: well_formed_def control_def)
qed

lemma close_all_total:
  "well_formed ctx \<Longrightarrow> depth ctx \<le> n \<Longrightarrow>
     \<exists>s ctx'. close_all n ctx = Some (s, ctx') \<and> well_formed ctx'"
proof (induction n arbitrary: ctx)
  case 0
  then show ?case by simp
next
  case (Suc n)
  show ?case
  proof (cases "depth ctx > 0")
    case False
    with Suc.prems show ?thesis by simp
  next
    case True
    from sjson_Close_total[OF Suc.prems(1)] obtain st ctx1 where
      cl: "sjson_Close ctx = Some (st, ctx1)" and w1: "well_formed ctx1"
      and d1: "st = SJSON_OK \<longrightarrow> depth ctx1 < depth ctx" by blast
    show ?thesis
    proof (cases "st = SJSON_OK")
      case ok: True
      with d1 Suc.prems(2) have "depth ctx1 \<le> n" by simp
      from Suc.IH[OF w1 this] True cl ok show ?thesis by (simp add: and_then_def)
    next
      case False
      with True cl w1 show ?thesis by (simp add: and_then_def)
    qed
  qed
qed

lemma apply_op_total:
  assumes "well_formed ctx"
  shows "\<exists>s ctx'. apply_op to_float fmt_f x ctx = Some (s, ctx') \<and> well_formed ctx'"
proof -
  have add: "\<exists>s ctx'. r = Some (s, ctx') \<and> well_formed ctx'" if "result_keeps_mode ctx r" for r
    using that assms unfolding result_keeps_mode_def keeps_mode_def by (cases r) auto
  show ?thesis
  proof (cases x)
    case Op_Close
    with sjson_Close_total[OF assms] show ?thesis by auto
  next
    case Op_End
    obtain sf ctx1 where fl: "sjson_Flush ctx = (sf, ctx1)" by (cases "sjson_Flush ctx")
    with Op_End sjson_Flush_well_formed[OF fl assms] close_all_total[OF assms order_refl]
    show ?thesis by (auto simp: sjson_End_def)
  next
    case Op_Flush
    obtain sf ctx1 where fl: "sjson_Flush ctx = (sf, ctx1)" by (cases "sjson_Flush ctx")
    with Op_Flush sjson_Flush_well_formed[OF fl assms] show ?thesis by simp
  next
    case (Op_AddStringToObject k v)
    with add[OF rkm_AddStringToObject] show ?thesis by simp
  next
    case (Op_AddIntToObject k v)
    with add[OF rkm_AddIntToObject] show ?thesis by simp
  next
    case (Op_AddFloatToObject k v)
    with add[OF rkm_AddFloatToObject] show ?thesis by simp
  next
    case (Op_AddNumberToObject k v)
    with add[OF rkm_AddFloatToObject] show ?thesis by (simp add: sjson_AddNumberToObject_def)
  next
    case (Op_AddIntArrayToObject k vs)
    with add[OF rkm_add_array_to_object] show ?thesis by (simp add: sjson_AddIntArrayToObject_def)
  next
    case (Op_AddFloatArrayToObject k vs)
    with add[OF rkm_add_array_to_object] show ?thesis by (simp add: sjson_AddFloatArrayToObject_def)
  next
    case (Op_AddArrayToObject k)
    with add[OF rkm_AddArrayToObject] show ?thesis by simp
  next
    case (Op_AddObjectToObject k)
    with add[OF rkm_AddObjectToObject] show ?thesis by simp
  next
    case (Op_AddRawToObject k v)
    with add[OF rkm_AddRawToObject] show ?thesis by simp
  next
    case (Op_AddIntToArray v)
    with add[OF rkm_AddIntToArray] show ?thesis by simp
  next
    case (Op_AddFloatToArray v)
    with add[OF rkm_AddFloatToArray] show ?thesis by simp
  next
    case (Op_AddStringToArray v)
    with add[OF rkm_AddStringToArray] show ?thesis by simp
  qed
qed

lemma reachable_invariant:
  "reachable to_float fmt_f ctx \<Longrightarrow> well_formed ctx \<and> finalized_inv ctx"
proof (induction rule: reachable.induct)
  case (reachable_init opener closer ctx0 buf sz callback s ctx)
  from sjson_Init_total[OF reachable_init(1) reachable_init(2,3)]
  show ?case by (simp add: finalized_inv_def)
next
  case (reachable_step ctx x s ctx')
  from apply_op_total[of ctx to_float fmt_f x] reachable_step
    apply_op_inv[OF reachable_step(2)]
  show ?case by auto
qed

lemma reachable_returns:
  "reachable to_float fmt_f ctx \<Longrightarrow> \<exists>s ctx'. apply_op to_float fmt_f x ctx = Some (s, ctx')"
  using reachable_invariant[of to_float fmt_f ctx] apply_op_total[of ctx to_float fmt_f x] by blast

text \<open>
  What a true \<open>finalized\<close> flag means in every reachable context, whatever the sink did:
  \<open>depth\<close> is 0, and \<open>used\<close> is 0 as well if the callback accepts whatever it is offered.
\<close>

lemma finalized_means_closed:
  assumes "reachable to_float fmt_f ctx" "finalized ctx"
  shows "depth ctx = 0 \<and> (accepting ctx \<longrightarrow> used ctx = 0)"
  using reachable_invariant[OF assms(1)] assms(2) by (simp add: finalized_inv_def)

text \<open>
  Claim C4, that in every context reached from an initialization by a sequence of
  operations a true \<open>finalized\<close> flag means \<open>depth = 0\<close> and \<open>used = 0\<close>, does not hold of the
  code: \<^verbatim>\<open>sjson_Close\<close> sets \<open>finalized\<close> before the final flush and returns the failure of
  that flush with the flag left set. After \<^verbatim>\<open>sjson_InitObject\<close> on a buffer of eight bytes
  at a sink that rejects, \<^verbatim>\<open>sjson_Close\<close> returns \<open>SJSON_ERROR_BUFFER_FULL\<close> and leaves the
  context finalized at depth 0 with \<open>used = 2\<close>: the bytes \<open>{}\<close> are in the buffer and the
  sink has received nothing.
\<close>

theorem finalized_with_pending_bytes:
  "map_option (\<lambda>r. (fst r, finalized (snd r), depth (snd r), used (snd r),
                     take (used (snd r)) (buffer (snd r)), sink_bytes (snd r)))
     (session id zero_fmt True blank_context (replicate 8 (CHR 0x00)) 8 never_accept [Op_Close])
     = Some ([SJSON_OK, SJSON_ERROR_BUFFER_FULL], True, 0, 2, ''{}'', [])"
  by code_simp

subsection \<open>Independence of the buffer size\<close>

lemma rs_Some: "similar c1 c2 \<Longrightarrow> results_similar (Some (s, c1)) (Some (s, c2))"
  by (simp add: results_similar_def)

lemma rs_and_then:
  assumes "results_similar r1 r2"
    and "\<And>c1 c2. similar c1 c2 \<Longrightarrow> results_similar (f1 c1) (f2 c2)"
  shows "results_similar (and_then r1 f1) (and_then r2 f2)"
proof -
  from assms(1) obtain s c1 c2 where r: "r1 = Some (s, c1)" "r2 = Some (s, c2)" "similar c1 c2"
    unfolding results_similar_def by blast
  show ?thesis
  proof (cases "s = SJSON_OK")
    case True
    with r assms(2)[OF r(3)] show ?thesis by (simp add: and_then_def)
  next
    case False
    with r show ?thesis by (simp add: and_then_def results_similar_def)
  qed
qed

lemma rs_write_data:
  assumes "similar c1 c2"
  shows "results_similar (write_data c1 data) (write_data c2 data)"
proof -
  from assms have g: "well_formed c1" "accepting c1" "well_formed c2" "accepting c2"
    and e: "emitted c1 = emitted c2" "control c1 = control c2"
    by (simp_all add: similar_def good_def)
  from write_data_accepting[OF g(1,2), of data] write_data_accepting[OF g(3,4), of data] e
  show ?thesis unfolding results_similar_def similar_def good_def by auto
qed

lemma rs_write_str: "similar c1 c2 \<Longrightarrow> results_similar (write_str c1 str) (write_str c2 str)"
  unfolding write_str_def by (rule rs_write_data)

lemma rs_write_char: "similar c1 c2 \<Longrightarrow> results_similar (write_char c1 c) (write_char c2 c)"
  unfolding write_char_def by (rule rs_write_data)

lemma similar_conds:
  assumes "similar c1 c2"
  shows "depth c1 = depth c2" "depth_stack c1 = depth_stack c2" "needs_comma c1 = needs_comma c2"
    "finalized c1 = finalized c2" "max_depth c1 = max_depth c2"
    "check_object_state c1 = check_object_state c2" "check_array_state c1 = check_array_state c2"
  using assms
  by (simp_all add: similar_def control_def check_object_state_def check_array_state_def)

lemma similar_updates:
  assumes "similar c1 c2"
  shows "similar (c1\<lparr>needs_comma := (needs_comma c1)[depth c1 := b]\<rparr>)
                 (c2\<lparr>needs_comma := (needs_comma c2)[depth c2 := b]\<rparr>)"
    and "similar (push_closer c1 ch) (push_closer c2 ch)"
    and "similar (c1\<lparr>depth := depth c1 - 1\<rparr>) (c2\<lparr>depth := depth c2 - 1\<rparr>)"
    and "similar (c1\<lparr>depth := depth c1 + 1\<rparr>) (c2\<lparr>depth := depth c2 + 1\<rparr>)"
    and "similar (c1\<lparr>finalized := True\<rparr>) (c2\<lparr>finalized := True\<rparr>)"
  using assms
  by (simp_all add: similar_def good_def well_formed_def accepting_def emitted_def control_def
      push_closer_def Let_def)

lemma similar_same_updates:
  assumes "similar c1 c2"
  shows "similar (c1\<lparr>needs_comma := nc\<rparr>) (c2\<lparr>needs_comma := nc\<rparr>)"
    and "similar (c1\<lparr>depth := d\<rparr>) (c2\<lparr>depth := d\<rparr>)"
  using assms
  by (simp_all add: similar_def good_def well_formed_def accepting_def emitted_def control_def)

lemma rs_add_comma:
  assumes "similar c1 c2"
  shows "results_similar (add_comma_if_needed c1) (add_comma_if_needed c2)"
  unfolding add_comma_if_needed_def using assms similar_conds[OF assms]
  by (auto intro!: rs_and_then rs_write_char rs_Some similar_updates similar_same_updates)

lemma rs_write_elements:
  "similar c1 c2 \<Longrightarrow> results_similar (write_elements fmt c1 i vs) (write_elements fmt c2 i vs)"
  by (induction vs arbitrary: c1 c2 i)
    (auto simp: Let_def intro!: rs_and_then rs_write_str rs_Some)

lemmas rs_intros = rs_and_then rs_write_char rs_write_str rs_Some similar_updates
  similar_same_updates rs_add_comma rs_write_elements

lemma rs_AddStringToObject:
  assumes "similar c1 c2"
  shows "results_similar (sjson_AddStringToObject c1 k v) (sjson_AddStringToObject c2 k v)"
  unfolding sjson_AddStringToObject_def using assms similar_conds[OF assms]
  by (auto simp: Let_def split: option.splits intro!: rs_intros)

lemma rs_AddIntToObject:
  assumes "similar c1 c2"
  shows "results_similar (sjson_AddIntToObject c1 k v) (sjson_AddIntToObject c2 k v)"
  unfolding sjson_AddIntToObject_def using assms similar_conds[OF assms]
  by (auto simp: Let_def split: option.splits intro!: rs_intros)

lemma rs_AddFloatToObject:
  assumes "similar c1 c2"
  shows "results_similar (sjson_AddFloatToObject fmt_f c1 k v) (sjson_AddFloatToObject fmt_f c2 k v)"
  unfolding sjson_AddFloatToObject_def using assms similar_conds[OF assms]
  by (auto simp: Let_def split: option.splits intro!: rs_intros)

lemma rs_add_array_to_object:
  assumes "similar c1 c2"
  shows "results_similar (add_array_to_object fmt c1 k vs) (add_array_to_object fmt c2 k vs)"
  unfolding add_array_to_object_def using assms similar_conds[OF assms]
  by (auto simp: Let_def split: option.splits intro!: rs_intros)

lemma rs_AddArrayToObject:
  assumes "similar c1 c2"
  shows "results_similar (sjson_AddArrayToObject c1 k) (sjson_AddArrayToObject c2 k)"
  unfolding sjson_AddArrayToObject_def using assms similar_conds[OF assms]
  by (auto simp: Let_def split: option.splits intro!: rs_intros)

lemma rs_AddObjectToObject:
  assumes "similar c1 c2"
  shows "results_similar (sjson_AddObjectToObject c1 k) (sjson_AddObjectToObject c2 k)"
  unfolding sjson_AddObjectToObject_def using assms similar_conds[OF assms]
  by (auto simp: Let_def split: option.splits intro!: rs_intros)

lemma rs_AddRawToObject:
  assumes "similar c1 c2"
  shows "results_similar (sjson_AddRawToObject c1 k v) (sjson_AddRawToObject c2 k v)"
  unfolding sjson_AddRawToObject_def using assms similar_conds[OF assms]
  by (auto simp: Let_def split: option.splits intro!: rs_intros)

lemma rs_AddIntToArray:
  assumes "similar c1 c2"
  shows "results_similar (sjson_AddIntToArray c1 v) (sjson_AddIntToArray c2 v)"
  unfolding sjson_AddIntToArray_def using assms similar_conds[OF assms]
  by (auto simp: Let_def split: option.splits intro!: rs_intros)

lemma rs_AddFloatToArray:
  assumes "similar c1 c2"
  shows "results_similar (sjson_AddFloatToArray fmt_f c1 v) (sjson_AddFloatToArray fmt_f c2 v)"
  unfolding sjson_AddFloatToArray_def using assms similar_conds[OF assms]
  by (auto simp: Let_def split: option.splits intro!: rs_intros)

lemma rs_AddStringToArray:
  assumes "similar c1 c2"
  shows "results_similar (sjson_AddStringToArray c1 v) (sjson_AddStringToArray c2 v)"
  unfolding sjson_AddStringToArray_def using assms similar_conds[OF assms]
  by (auto simp: Let_def split: option.splits intro!: rs_intros)

lemma rs_Flush:
  assumes "similar c1 c2"
  shows "results_similar (Some (sjson_Flush c1)) (Some (sjson_Flush c2))"
proof -
  from assms have g: "well_formed c1" "accepting c1" "well_formed c2" "accepting c2"
    and e: "emitted c1 = emitted c2" "control c1 = control c2"
    by (simp_all add: similar_def good_def)
  from sjson_Flush_accepting[OF g(1,2)] sjson_Flush_accepting[OF g(3,4)] e
  show ?thesis unfolding results_similar_def similar_def good_def by auto
qed

lemma rs_Close:
  assumes "similar c1 c2"
  shows "results_similar (sjson_Close c1) (sjson_Close c2)"
proof (cases "finalized c1 \<or> depth c1 = 0")
  case True
  with assms similar_conds[OF assms] show ?thesis
    by (auto simp: sjson_Close_def intro!: rs_Some)
next
  case False
  let ?d1 = "c1\<lparr>depth := depth c1 - 1\<rparr>" and ?d2 = "c2\<lparr>depth := depth c2 - 1\<rparr>"
  have sd: "similar ?d1 ?d2" by (rule similar_updates(3)[OF assms])
  have ch: "depth_stack ?d1 ! depth ?d1 = depth_stack ?d2 ! depth ?d2"
    using similar_conds[OF assms] by simp
  from rs_write_char[OF sd, of "depth_stack ?d1 ! depth ?d1"] ch obtain s e1 e2 where
    w: "write_char ?d1 (depth_stack ?d1 ! depth ?d1) = Some (s, e1)"
       "write_char ?d2 (depth_stack ?d2 ! depth ?d2) = Some (s, e2)" and se: "similar e1 e2"
    unfolding results_similar_def by auto
  note ce = similar_conds[OF se]
  have r1: "sjson_Close c1 =
      (if s \<noteq> SJSON_OK then Some (s, e1\<lparr>depth := depth e1 + 1\<rparr>)
       else if depth e1 = 0 then Some (sjson_Flush (e1\<lparr>finalized := True\<rparr>))
       else Some (SJSON_OK, e1\<lparr>needs_comma := (needs_comma e1)[depth e1 := True]\<rparr>))"
    using False w(1) by (simp add: sjson_Close_def Let_def)
  have r2: "sjson_Close c2 =
      (if s \<noteq> SJSON_OK then Some (s, e2\<lparr>depth := depth e2 + 1\<rparr>)
       else if depth e2 = 0 then Some (sjson_Flush (e2\<lparr>finalized := True\<rparr>))
       else Some (SJSON_OK, e2\<lparr>needs_comma := (needs_comma e2)[depth e2 := True]\<rparr>))"
    using False w(2) similar_conds[OF assms] by (simp add: sjson_Close_def Let_def)
  show ?thesis unfolding r1 r2 using ce(1,3) se
    by (auto intro!: rs_Some rs_Flush similar_updates similar_same_updates)
qed

lemma rs_close_all:
  "similar c1 c2 \<Longrightarrow> depth c1 \<le> n \<Longrightarrow> results_similar (close_all n c1) (close_all n c2)"
proof (induction n arbitrary: c1 c2)
  case 0
  with similar_conds[OF "0.prems"(1)] show ?case by (auto intro!: rs_Some)
next
  case (Suc n)
  note ce = similar_conds[OF Suc.prems(1)]
  show ?case
  proof (cases "depth c1 > 0")
    case False
    with ce Suc.prems show ?thesis by (auto intro!: rs_Some)
  next
    case True
    from rs_Close[OF Suc.prems(1)] obtain s e1 e2 where
      cl: "sjson_Close c1 = Some (s, e1)" "sjson_Close c2 = Some (s, e2)" and se: "similar e1 e2"
      unfolding results_similar_def by blast
    show ?thesis
    proof (cases "s = SJSON_OK")
      case ok: True
      from se have "well_formed c1" using Suc.prems(1) by (simp add: similar_def good_def)
      from sjson_Close_total[OF this] cl(1) ok have "depth e1 < depth c1" by auto
      with Suc.prems(2) have "depth e1 \<le> n" by simp
      from Suc.IH[OF se this] True ce cl ok show ?thesis by (simp add: and_then_def)
    next
      case False
      with True ce cl se show ?thesis by (auto simp: and_then_def intro!: rs_Some)
    qed
  qed
qed

lemma rs_End:
  assumes "similar c1 c2"
  shows "results_similar (sjson_End c1) (sjson_End c2)"
  using assms similar_conds[OF assms] rs_Flush[OF assms] rs_close_all[OF assms order_refl]
  by (auto simp: sjson_End_def)

lemma rs_apply_op:
  assumes "similar c1 c2"
  shows "results_similar (apply_op to_float fmt_f x c1) (apply_op to_float fmt_f x c2)"
  using assms
  by (cases x)
    (simp_all add: rs_Close rs_End rs_Flush rs_AddStringToObject rs_AddIntToObject
      rs_AddFloatToObject sjson_AddNumberToObject_def sjson_AddIntArrayToObject_def
      sjson_AddFloatArrayToObject_def rs_add_array_to_object rs_AddArrayToObject
      rs_AddObjectToObject rs_AddRawToObject rs_AddIntToArray rs_AddFloatToArray
      rs_AddStringToArray)

lemma rs_run_ops:
  assumes "similar c1 c2" "finalized_inv c1" "finalized_inv c2"
  shows "\<exists>statuses e1 e2. run_ops to_float fmt_f c1 ops = Some (statuses, e1) \<and>
           run_ops to_float fmt_f c2 ops = Some (statuses, e2) \<and> similar e1 e2 \<and>
           finalized_inv e1 \<and> finalized_inv e2"
  using assms
proof (induction ops arbitrary: c1 c2)
  case Nil
  then show ?case by simp
next
  case (Cons x xs)
  from rs_apply_op[OF Cons.prems(1), of to_float fmt_f x] obtain s d1 d2 where
    a: "apply_op to_float fmt_f x c1 = Some (s, d1)" "apply_op to_float fmt_f x c2 = Some (s, d2)"
    and sd: "similar d1 d2"
    unfolding results_similar_def by blast
  note i = apply_op_inv[OF a(1) Cons.prems(2)] apply_op_inv[OF a(2) Cons.prems(3)]
  from Cons.IH[OF sd i] a show ?case by auto
qed

lemma rs_Init:
  assumes "0 < sz1" "sz1 \<le> length buf1" "0 < sz2" "sz2 \<le> length buf2"
    and "\<forall>n bytes. cb1 n bytes" "\<forall>n bytes. cb2 n bytes"
  shows "\<exists>e1 e2. sjson_Init opener closer ctx0 (Some buf1) sz1 (Some cb1) = Some (SJSON_OK, e1) \<and>
           sjson_Init opener closer ctx0 (Some buf2) sz2 (Some cb2) = Some (SJSON_OK, e2) \<and>
           similar e1 e2 \<and> finalized_inv e1 \<and> finalized_inv e2 \<and>
           emitted e1 = concat (sink_bytes ctx0) @ [opener] \<and> depth e1 = 1 \<and>
           depth_stack e1 = (replicate (SJSON_MAX_DEPTH + 1) (CHR 0x00))[0 := closer] \<and>
           max_depth e1 = SJSON_MAX_DEPTH \<and> \<not> finalized e1"
proof -
  define i1 where "i1 = ctx0\<lparr>buffer := buf1, buffer_size := sz1, used := 0,
      send_callback := cb1, depth := 0, max_depth := SJSON_MAX_DEPTH, finalized := False,
      depth_stack := replicate (SJSON_MAX_DEPTH + 1) (CHR 0x00),
      needs_comma := replicate (SJSON_MAX_DEPTH + 1) False\<rparr>"
  define i2 where "i2 = ctx0\<lparr>buffer := buf2, buffer_size := sz2, used := 0,
      send_callback := cb2, depth := 0, max_depth := SJSON_MAX_DEPTH, finalized := False,
      depth_stack := replicate (SJSON_MAX_DEPTH + 1) (CHR 0x00),
      needs_comma := replicate (SJSON_MAX_DEPTH + 1) False\<rparr>"
  have si: "similar i1 i2"
    using assms
    by (simp add: i1_def i2_def similar_def good_def well_formed_def accepting_def emitted_def
        control_def)
  have e0: "emitted i1 = concat (sink_bytes ctx0)" "control i1 = (0, replicate (SJSON_MAX_DEPTH + 1) (CHR 0x00),
      replicate (SJSON_MAX_DEPTH + 1) False, False, SJSON_MAX_DEPTH)"
    by (simp_all add: i1_def emitted_def control_def)
  have g1: "well_formed i1" "accepting i1" using si by (simp_all add: similar_def good_def)
  from rs_write_char[OF si, of opener] obtain s w1 w2 where
    w: "write_char i1 opener = Some (s, w1)" "write_char i2 opener = Some (s, w2)"
    and sw: "similar w1 w2"
    unfolding results_similar_def by blast
  from write_data_accepting[OF g1, of "[opener]"] w(1) have s: "s = SJSON_OK"
    and ew: "emitted w1 = emitted i1 @ [opener]" "control w1 = control i1"
    by (auto simp: write_char_def)
  have r1: "sjson_Init opener closer ctx0 (Some buf1) sz1 (Some cb1)
      = Some (SJSON_OK, push_closer w1 closer)"
    using assms(1) w(1) s by (simp add: sjson_Init_def i1_def Let_def push_closer_def and_then_def)
  have r2: "sjson_Init opener closer ctx0 (Some buf2) sz2 (Some cb2)
      = Some (SJSON_OK, push_closer w2 closer)"
    using assms(3) w(2) s by (simp add: sjson_Init_def i2_def Let_def push_closer_def and_then_def)
  have f: "\<not> finalized (push_closer w1 closer)" "\<not> finalized (push_closer w2 closer)"
    using ew e0 similar_conds[OF sw] by (simp_all add: push_closer_def Let_def control_def)
  have "emitted (push_closer w1 closer) = emitted w1"
    by (simp add: push_closer_def Let_def emitted_def)
  with r1 r2 similar_updates(2)[OF sw, of closer] f ew e0 show ?thesis
    by (auto simp: finalized_inv_def push_closer_def Let_def control_def)
qed

lemma session_similar:
  assumes "0 < sz1" "sz1 \<le> length buf1" "0 < sz2" "sz2 \<le> length buf2"
    and "\<forall>n bytes. cb1 n bytes" "\<forall>n bytes. cb2 n bytes"
  shows "\<exists>statuses e1 e2.
           session to_float fmt_f as_object ctx0 buf1 sz1 cb1 ops = Some (statuses, e1) \<and>
           session to_float fmt_f as_object ctx0 buf2 sz2 cb2 ops = Some (statuses, e2) \<and>
           similar e1 e2 \<and> finalized_inv e1 \<and> finalized_inv e2"
proof -
  obtain opener closer where oc:
    "(if as_object then sjson_InitObject else sjson_InitArray) = sjson_Init opener closer"
    by (cases as_object) (auto simp: sjson_InitObject_def sjson_InitArray_def)
  from rs_Init[OF assms, of opener closer ctx0] obtain i1 i2 where
    i: "sjson_Init opener closer ctx0 (Some buf1) sz1 (Some cb1) = Some (SJSON_OK, i1)"
       "sjson_Init opener closer ctx0 (Some buf2) sz2 (Some cb2) = Some (SJSON_OK, i2)"
    and si: "similar i1 i2" "finalized_inv i1" "finalized_inv i2"
    by blast
  from rs_run_ops[OF si, of to_float fmt_f ops] obtain statuses e1 e2 where
    r: "run_ops to_float fmt_f i1 ops = Some (statuses, e1)"
       "run_ops to_float fmt_f i2 ops = Some (statuses, e2)"
    and se: "similar e1 e2" "finalized_inv e1" "finalized_inv e2"
    by blast
  have "session to_float fmt_f as_object ctx0 buf1 sz1 cb1 ops = Some (SJSON_OK # statuses, e1)"
    "session to_float fmt_f as_object ctx0 buf2 sz2 cb2 ops = Some (SJSON_OK # statuses, e2)"
    using oc i r by (auto simp: session_def split: if_splits)
  with se show ?thesis by blast
qed

lemma finalized_flushed:
  assumes "good ctx" "finalized_inv ctx" "finalized ctx"
  shows "used ctx = 0" "emitted ctx = concat (sink_bytes ctx)"
  using assms by (simp_all add: good_def finalized_inv_def emitted_def)

lemma status_ok_reference:
  "\<exists>ctx. session to_float fmt_f True blank_context (replicate 64 (CHR 0x00)) 64 always_accept
            status_ok_example = Some ([SJSON_OK, SJSON_OK, SJSON_OK, SJSON_OK], ctx) \<and>
         emitted ctx = status_ok_document \<and> finalized ctx"
  by (simp add: session_def status_ok_example_def status_ok_document_def blank_context_def
      writer_eval sjson_AddStringToObject_def sjson_AddIntToObject_def check_object_state_def
      add_comma_if_needed_def quoted_key_def snprintf_fits_def fmt_ld_def dec_digits.simps
      digit_char_def emitted_def numeral_eq_Suc)

text \<open>
  Claim C3, as amended. For every sequence of operations after the initialization and every
  two buffer sizes of at least 1, at sinks that always accept, the two runs return the same
  statuses, and the bytes delivered to the sink followed by the bytes still buffered are
  the same in both. Both runs end finalized or neither does, and once finalized nothing is
  buffered, so that the bytes delivered to the sink are the same.
\<close>

theorem buffer_size_independent:
  assumes "0 < sz1" "sz1 \<le> length buf1" "0 < sz2" "sz2 \<le> length buf2"
    and "\<forall>n bytes. cb1 n bytes" "\<forall>n bytes. cb2 n bytes"
  shows "\<exists>statuses e1 e2.
           session to_float fmt_f as_object ctx0 buf1 sz1 cb1 ops = Some (statuses, e1) \<and>
           session to_float fmt_f as_object ctx0 buf2 sz2 cb2 ops = Some (statuses, e2) \<and>
           concat (sink_bytes e1) @ take (used e1) (buffer e1)
             = concat (sink_bytes e2) @ take (used e2) (buffer e2) \<and>
           finalized e1 = finalized e2 \<and>
           (finalized e1 \<longrightarrow> used e1 = 0 \<and> used e2 = 0 \<and>
              concat (sink_bytes e1) = concat (sink_bytes e2))"
proof -
  from session_similar[OF assms, of to_float fmt_f as_object ctx0 ops] obtain statuses e1 e2 where
    s: "session to_float fmt_f as_object ctx0 buf1 sz1 cb1 ops = Some (statuses, e1)"
       "session to_float fmt_f as_object ctx0 buf2 sz2 cb2 ops = Some (statuses, e2)"
    and se: "similar e1 e2" and i: "finalized_inv e1" "finalized_inv e2"
    by blast
  from se have g: "good e1" "good e2" and e: "emitted e1 = emitted e2"
    and f: "finalized e1 = finalized e2"
    by (simp_all add: similar_def control_def)
  have "finalized e1 \<longrightarrow> used e1 = 0 \<and> used e2 = 0 \<and> concat (sink_bytes e1) = concat (sink_bytes e2)"
    using finalized_flushed[OF g(1) i(1)] finalized_flushed[OF g(2) i(2)] e f by auto
  with s e f show ?thesis by (auto simp: emitted_def)
qed

theorem buffer_size_independent_witness:
  "0 < (2::nat) \<and> 2 \<le> length (replicate 2 (CHR 0x00)) \<and> 0 < (64::nat) \<and>
   64 \<le> length (replicate 64 (CHR 0x00)) \<and> (\<forall>n bytes. always_accept n bytes) \<and>
   (\<exists>statuses e1 e2.
      session id zero_fmt True blank_context (replicate 2 (CHR 0x00)) 2 always_accept
        status_ok_example = Some (statuses, e1) \<and>
      session id zero_fmt True blank_context (replicate 64 (CHR 0x00)) 64 always_accept
        status_ok_example = Some (statuses, e2) \<and>
      concat (sink_bytes e1) @ take (used e1) (buffer e1)
        = concat (sink_bytes e2) @ take (used e2) (buffer e2) \<and>
      finalized e1 \<and> finalized e2 \<and> used e1 = 0 \<and> used e2 = 0 \<and>
      concat (sink_bytes e1) = concat (sink_bytes e2))"
proof -
  have h: "0 < (2::nat)" "2 \<le> length (replicate 2 (CHR 0x00))" "0 < (64::nat)"
    "64 \<le> length (replicate 64 (CHR 0x00))" "\<forall>n bytes. always_accept n bytes"
    by (simp_all add: always_accept_def)
  from status_ok_reference[of id zero_fmt] obtain ref where
    r: "session id zero_fmt True blank_context (replicate 64 (CHR 0x00)) 64 always_accept
          status_ok_example = Some ([SJSON_OK, SJSON_OK, SJSON_OK, SJSON_OK], ref)"
    and f: "finalized ref"
    by blast
  from buffer_size_independent[OF h(1,2,3,4,5,5), of id zero_fmt True blank_context
      status_ok_example]
  obtain statuses e1 e2 where
    s: "session id zero_fmt True blank_context (replicate 2 (CHR 0x00)) 2 always_accept
          status_ok_example = Some (statuses, e1)"
       "session id zero_fmt True blank_context (replicate 64 (CHR 0x00)) 64 always_accept
          status_ok_example = Some (statuses, e2)"
    and e: "concat (sink_bytes e1) @ take (used e1) (buffer e1)
          = concat (sink_bytes e2) @ take (used e2) (buffer e2)"
    and fe: "finalized e1 = finalized e2"
    and fl: "finalized e1 \<longrightarrow> used e1 = 0 \<and> used e2 = 0 \<and>
          concat (sink_bytes e1) = concat (sink_bytes e2)"
    by blast
  from s(2) r have "e2 = ref" by simp
  with f fe have f1: "finalized e1" "finalized e2" by simp_all
  with fl have "used e1 = 0" "used e2 = 0" "concat (sink_bytes e1) = concat (sink_bytes e2)"
    by simp_all
  with s e f1 have "\<exists>statuses e1 e2.
      session id zero_fmt True blank_context (replicate 2 (CHR 0x00)) 2 always_accept
        status_ok_example = Some (statuses, e1) \<and>
      session id zero_fmt True blank_context (replicate 64 (CHR 0x00)) 64 always_accept
        status_ok_example = Some (statuses, e2) \<and>
      concat (sink_bytes e1) @ take (used e1) (buffer e1)
        = concat (sink_bytes e2) @ take (used e2) (buffer e2) \<and>
      finalized e1 \<and> finalized e2 \<and> used e1 = 0 \<and> used e2 = 0 \<and>
      concat (sink_bytes e1) = concat (sink_bytes e2)"
    by blast
  with h show ?thesis by blast
qed

text \<open>
  Claim C3 as stated fails for a sequence that does not finalize the document: after the
  initialization and one member, a buffer of 2 bytes has delivered ten bytes to the sink
  and a buffer of 64 bytes none.
\<close>

theorem sink_bytes_depend_on_buffer_size_counterexample:
  \<open>sink_output (session id zero_fmt True blank_context (replicate 2 (CHR 0x00)) 2 always_accept
      count_only_example) = Some ''{"count":3'' \<and>
   sink_output (session id zero_fmt True blank_context (replicate 64 (CHR 0x00)) 64 always_accept
      count_only_example) = Some []\<close>
  by code_simp

text \<open>
  Claim C2. With a buffer of any size from 1 on and a sink that always accepts,
  \<^verbatim>\<open>sjson_InitObject\<close>, \<^verbatim>\<open>sjson_AddStringToObject("status", "ok")\<close>,
  \<^verbatim>\<open>sjson_AddIntToObject("count", 3)\<close> and \<^verbatim>\<open>sjson_End\<close> all return \<open>SJSON_OK\<close>, and the
  bytes delivered to the sink are exactly \<open>{"status":"ok","count":3}\<close>.
\<close>

theorem status_ok_example_output:
  assumes "0 < sz" "sz \<le> length buf" "\<forall>n bytes. callback n bytes"
  shows "\<exists>ctx. session to_float fmt_f True blank_context buf sz callback status_ok_example
             = Some ([SJSON_OK, SJSON_OK, SJSON_OK, SJSON_OK], ctx) \<and>
           concat (sink_bytes ctx) = status_ok_document"
proof -
  have a: "\<forall>n bytes. always_accept n bytes" by (simp add: always_accept_def)
  from status_ok_reference[of to_float fmt_f] obtain ref where
    r: "session to_float fmt_f True blank_context (replicate 64 (CHR 0x00)) 64 always_accept
          status_ok_example = Some ([SJSON_OK, SJSON_OK, SJSON_OK, SJSON_OK], ref)"
    and er: "emitted ref = status_ok_document" "finalized ref"
    by blast
  from session_similar[OF assms(1,2) _ _ assms(3) a, of 64 "replicate 64 (CHR 0x00)"
      to_float fmt_f True blank_context status_ok_example] r
  obtain ctx where
    s: "session to_float fmt_f True blank_context buf sz callback status_ok_example
          = Some ([SJSON_OK, SJSON_OK, SJSON_OK, SJSON_OK], ctx)"
    and se: "similar ctx ref" and i: "finalized_inv ctx"
    by auto
  from se er have "good ctx" "finalized ctx" "emitted ctx = status_ok_document"
    by (simp_all add: similar_def control_def)
  with finalized_flushed[OF this(1) i this(2)] s show ?thesis by auto
qed

theorem status_ok_example_output_witness:
  "0 < (1::nat) \<and> 1 \<le> length [CHR 0x00] \<and> (\<forall>n bytes. always_accept n bytes) \<and>
   (\<exists>ctx. session id zero_fmt True blank_context [CHR 0x00] 1 always_accept status_ok_example
             = Some ([SJSON_OK, SJSON_OK, SJSON_OK, SJSON_OK], ctx) \<and>
           concat (sink_bytes ctx) = status_ok_document)"
proof -
  have h: "0 < (1::nat)" "1 \<le> length [CHR 0x00]" "\<forall>n bytes. always_accept n bytes"
    by (simp_all add: always_accept_def)
  from status_ok_example_output[OF h, of id zero_fmt] h show ?thesis by blast
qed

subsection \<open>What an operation at an accepting sink adds to the document\<close>

lemma write_data_effect:
  assumes "good ctx"
  shows "\<exists>ctx'. write_data ctx data = Some (SJSON_OK, ctx') \<and> good ctx' \<and>
           control ctx' = control ctx \<and> emitted ctx' = emitted ctx @ data"
  using assms write_data_accepting[of ctx data] unfolding good_def by blast

lemma add_comma_effect:
  assumes "good ctx"
  shows "\<exists>ctx'. add_comma_if_needed ctx = Some (SJSON_OK, ctx') \<and> good ctx' \<and>
           depth ctx' = depth ctx \<and> depth_stack ctx' = depth_stack ctx \<and>
           finalized ctx' = finalized ctx \<and> max_depth ctx' = max_depth ctx \<and>
           needs_comma ctx' = (needs_comma ctx)[depth ctx := True] \<and>
           emitted ctx' = emitted ctx @ (if needs_comma ctx ! depth ctx then [CHR 0x2C] else [])"
proof (cases "needs_comma ctx ! depth ctx")
  case False
  with assms show ?thesis
    by (auto simp: add_comma_if_needed_def good_def well_formed_def accepting_def emitted_def)
next
  case True
  from write_data_effect[OF assms, of "[CHR 0x2C]"] obtain c1 where
    w: "write_char ctx (CHR 0x2C) = Some (SJSON_OK, c1)" "good c1" "control c1 = control ctx"
      "emitted c1 = emitted ctx @ [CHR 0x2C]"
    unfolding write_char_def by blast
  with True show ?thesis
    by (auto simp: add_comma_if_needed_def and_then_def good_def well_formed_def accepting_def
        control_def emitted_def)
qed

lemma comma_then_text:
  assumes "good ctx"
  shows "\<exists>ctx'. and_then (add_comma_if_needed ctx) (\<lambda>c. write_str c str) = Some (SJSON_OK, ctx') \<and>
           good ctx' \<and>
           emitted ctx' = emitted ctx @ (if needs_comma ctx ! depth ctx then [CHR 0x2C] else []) @ str \<and>
           depth ctx' = depth ctx \<and> depth_stack ctx' = depth_stack ctx \<and>
           needs_comma ctx' = (needs_comma ctx)[depth ctx := True] \<and>
           finalized ctx' = finalized ctx \<and> max_depth ctx' = max_depth ctx"
proof -
  from add_comma_effect[OF assms] obtain c1 where
    c1: "add_comma_if_needed ctx = Some (SJSON_OK, c1)" "good c1" "depth c1 = depth ctx"
      "depth_stack c1 = depth_stack ctx" "finalized c1 = finalized ctx"
      "max_depth c1 = max_depth ctx" "needs_comma c1 = (needs_comma ctx)[depth ctx := True]"
      "emitted c1 = emitted ctx @ (if needs_comma ctx ! depth ctx then [CHR 0x2C] else [])"
    by blast
  from write_data_effect[OF c1(2), of str] obtain c2 where
    c2: "write_str c1 str = Some (SJSON_OK, c2)" "good c2" "control c2 = control c1"
      "emitted c2 = emitted c1 @ str"
    unfolding write_str_def by blast
  from c1 c2 show ?thesis by (simp add: and_then_def control_def)
qed

lemma in_object_check: "in_object ctx \<Longrightarrow> check_object_state ctx = SJSON_OK"
  by (simp add: in_object_def check_object_state_def)

subsection \<open>The depth bound\<close>

text \<open>At a sink that accepts whatever it is offered.\<close>

lemma run_ops_append:
  "run_ops to_float fmt_f ctx (xs @ ys) =
     (case run_ops to_float fmt_f ctx xs of
        None \<Rightarrow> None
      | Some (s1, c1) \<Rightarrow>
          (case run_ops to_float fmt_f c1 ys of
             None \<Rightarrow> None
           | Some (s2, c2) \<Rightarrow> Some (s1 @ s2, c2)))"
  by (induction xs arbitrary: ctx) (auto split: option.splits)

lemma in_array_check: "in_array ctx \<Longrightarrow> check_object_state ctx = SJSON_ERROR_INVALID_STATE"
  by (simp add: in_array_def check_object_state_def)

lemma in_array_check_array: "in_array ctx \<Longrightarrow> check_array_state ctx = SJSON_OK"
  by (simp add: in_array_def check_array_state_def)

lemma init_no_member_yet:
  assumes "0 < sz" "sz \<le> length buf" "\<forall>n bytes. callback n bytes"
  shows "\<exists>c. sjson_Init opener closer ctx0 (Some buf) sz (Some callback) = Some (SJSON_OK, c) \<and>
           good c \<and> \<not> finalized c \<and> depth c = 1 \<and> depth_stack c ! 0 = closer \<and>
           length (depth_stack c) = SJSON_MAX_DEPTH + 1 \<and> max_depth c = SJSON_MAX_DEPTH \<and>
           no_member_yet c \<and> emitted c = concat (sink_bytes ctx0) @ [opener]"
proof -
  define i1 where "i1 = ctx0\<lparr>buffer := buf, buffer_size := sz, used := 0,
      send_callback := callback, depth := 0, max_depth := SJSON_MAX_DEPTH, finalized := False,
      depth_stack := replicate (SJSON_MAX_DEPTH + 1) (CHR 0x00),
      needs_comma := replicate (SJSON_MAX_DEPTH + 1) False\<rparr>"
  have g: "good i1"
    using assms by (simp add: i1_def good_def well_formed_def accepting_def)
  have e0: "emitted i1 = concat (sink_bytes ctx0)"
    "control i1 = (0, replicate (SJSON_MAX_DEPTH + 1) (CHR 0x00),
      replicate (SJSON_MAX_DEPTH + 1) False, False, SJSON_MAX_DEPTH)"
    by (simp_all add: i1_def emitted_def control_def)
  from write_data_effect[OF g, of "[opener]"] obtain w1 where
    w: "write_char i1 opener = Some (SJSON_OK, w1)" "good w1" "control w1 = control i1"
      "emitted w1 = emitted i1 @ [opener]"
    unfolding write_char_def by blast
  have r: "sjson_Init opener closer ctx0 (Some buf) sz (Some callback)
      = Some (SJSON_OK, push_closer w1 closer)"
    using assms(1) w(1) by (simp add: sjson_Init_def i1_def Let_def push_closer_def and_then_def)
  have c: "depth w1 = 0" "depth_stack w1 = replicate (SJSON_MAX_DEPTH + 1) (CHR 0x00)"
    "needs_comma w1 = replicate (SJSON_MAX_DEPTH + 1) False" "\<not> finalized w1"
    "max_depth w1 = SJSON_MAX_DEPTH"
    using w(3) e0(2) by (simp_all add: control_def)
  have "good (push_closer w1 closer)"
    using w(2) by (simp add: push_closer_def Let_def good_def well_formed_def accepting_def)
  moreover have "emitted (push_closer w1 closer) = concat (sink_bytes ctx0) @ [opener]"
    using w(4) e0(1) by (simp add: push_closer_def Let_def emitted_def)
  moreover have "\<not> finalized (push_closer w1 closer)" "depth (push_closer w1 closer) = 1"
    "depth_stack (push_closer w1 closer) ! 0 = closer"
    "length (depth_stack (push_closer w1 closer)) = SJSON_MAX_DEPTH + 1"
    "max_depth (push_closer w1 closer) = SJSON_MAX_DEPTH"
    "no_member_yet (push_closer w1 closer)"
    using c by (simp_all add: push_closer_def Let_def no_member_yet_def SJSON_MAX_DEPTH_def)
  ultimately show ?thesis using r by blast
qed

lemma open_collection_ok:
  assumes "in_object ctx" "depth ctx < max_depth ctx" "max_depth ctx < length (needs_comma ctx)"
    and "if as_array then 0 < length k \<and> length k \<le> 128 else length k < 124"
  shows "\<exists>ctx'. apply_op to_float fmt_f (open_collection as_array k) ctx = Some (SJSON_OK, ctx') \<and>
           (if as_array then in_array ctx' else in_object ctx') \<and> no_member_yet ctx' \<and>
           depth ctx' = Suc (depth ctx) \<and> max_depth ctx' = max_depth ctx \<and>
           emitted ctx' = emitted ctx @ (if needs_comma ctx ! depth ctx then [CHR 0x2C] else []) @
                          quoted_key k @ [if as_array then CHR 0x5B else CHR 0x7B]"
proof -
  from assms(1) have g: "good ctx" and ns: "\<not> finalized ctx"
    and len: "max_depth ctx < length (depth_stack ctx)"
    by (simp_all add: in_object_def)
  define opener where "opener = (if as_array then CHR 0x5B else CHR 0x7B)"
  define closer where "closer = (if as_array then CHR 0x5D else CHR 0x7D)"
  from comma_then_text[OF g, of "quoted_key k @ [opener]"] obtain c2 where
    c2: "and_then (add_comma_if_needed ctx) (\<lambda>c. write_str c (quoted_key k @ [opener]))
           = Some (SJSON_OK, c2)" "good c2"
      "emitted c2 = emitted ctx @ (if needs_comma ctx ! depth ctx then [CHR 0x2C] else []) @
          quoted_key k @ [opener]"
      "depth c2 = depth ctx" "depth_stack c2 = depth_stack ctx"
      "needs_comma c2 = (needs_comma ctx)[depth ctx := True]"
      "finalized c2 = finalized ctx" "max_depth c2 = max_depth ctx"
    by blast
  have split: "and_then (add_comma_if_needed ctx)
        (\<lambda>c. and_then (write_str c (quoted_key k @ [opener])) (\<lambda>c'. Some (SJSON_OK, push_closer c' closer)))
      = and_then (and_then (add_comma_if_needed ctx) (\<lambda>c. write_str c (quoted_key k @ [opener])))
          (\<lambda>c'. Some (SJSON_OK, push_closer c' closer))"
    by (simp add: and_then_def split: option.splits)
  have r: "apply_op to_float fmt_f (open_collection as_array k) ctx
      = Some (SJSON_OK, push_closer c2 closer)"
  proof (cases as_array)
    case True
    then have fits: "snprintf_fits (128 + 5) (quoted_key k @ [CHR 0x5B])"
      using assms(4) by (simp add: snprintf_fits_def quoted_key_def)
    have "sjson_AddArrayToObject ctx (Some k)
        = and_then (add_comma_if_needed ctx)
            (\<lambda>c. and_then (write_str c (quoted_key k @ [CHR 0x5B]))
               (\<lambda>c'. Some (SJSON_OK, push_closer c' (CHR 0x5D))))"
      using in_object_check[OF assms(1)] assms(2,4) True fits
      by (simp add: sjson_AddArrayToObject_def Let_def)
    with True split c2(1) show ?thesis
      by (simp add: open_collection_def opener_def closer_def and_then_def)
  next
    case False
    then have fits: "snprintf_fits 128 (quoted_key k @ [CHR 0x7B])"
      using assms(4) by (simp add: snprintf_fits_def quoted_key_def)
    have "sjson_AddObjectToObject ctx (Some k)
        = and_then (add_comma_if_needed ctx)
            (\<lambda>c. and_then (write_str c (quoted_key k @ [CHR 0x7B]))
               (\<lambda>c'. Some (SJSON_OK, push_closer c' (CHR 0x7D))))"
      using in_object_check[OF assms(1)] assms(2) fits
      by (simp add: sjson_AddObjectToObject_def Let_def)
    with False split c2(1) show ?thesis
      by (simp add: open_collection_def opener_def closer_def and_then_def)
  qed
  have p: "good (push_closer c2 closer)" "\<not> finalized (push_closer c2 closer)"
    "depth (push_closer c2 closer) = Suc (depth ctx)"
    "max_depth (push_closer c2 closer) = max_depth ctx"
    "depth_stack (push_closer c2 closer) ! depth ctx = closer"
    "max_depth (push_closer c2 closer) < length (depth_stack (push_closer c2 closer))"
    "no_member_yet (push_closer c2 closer)"
    "emitted (push_closer c2 closer) = emitted c2"
    using c2 ns len assms(2,3)
    by (simp_all add: push_closer_def Let_def good_def well_formed_def accepting_def
        no_member_yet_def emitted_def)
  have "if as_array then in_array (push_closer c2 closer) else in_object (push_closer c2 closer)"
    using p by (cases as_array) (simp_all add: in_array_def in_object_def closer_def)
  with r p c2(3) show ?thesis by (auto simp: opener_def)
qed

lemma open_objects_ok:
  assumes "in_object ctx" "no_member_yet ctx" "depth ctx + length keys \<le> max_depth ctx"
    "\<forall>k\<in>set keys. length k < 124"
  shows "\<exists>ctx'. run_ops to_float fmt_f ctx (open_objects keys)
             = Some (replicate (length keys) SJSON_OK, ctx') \<and> in_object ctx' \<and>
           no_member_yet ctx' \<and>
           depth ctx' = depth ctx + length keys \<and> max_depth ctx' = max_depth ctx \<and>
           emitted ctx' = emitted ctx @ concat (map (\<lambda>k. quoted_key k @ [CHR 0x7B]) keys)"
  using assms
proof (induction keys arbitrary: ctx)
  case Nil
  then show ?case by (simp add: open_objects_def)
next
  case (Cons k keys)
  from Cons.prems have d: "depth ctx < max_depth ctx"
    and lk: "if False then 0 < length k \<and> length k \<le> 128 else length k < 124"
    and nm: "max_depth ctx < length (needs_comma ctx)" "\<not> needs_comma ctx ! depth ctx"
    by (simp_all add: no_member_yet_def)
  from open_collection_ok[OF Cons.prems(1) d nm(1) lk, of to_float fmt_f] nm(2) obtain c1 where
    c1: "sjson_AddObjectToObject ctx (Some k) = Some (SJSON_OK, c1)" "in_object c1"
      "no_member_yet c1" "depth c1 = Suc (depth ctx)" "max_depth c1 = max_depth ctx"
      "emitted c1 = emitted ctx @ quoted_key k @ [CHR 0x7B]"
    by (auto simp: open_collection_def)
  have "depth c1 + length keys \<le> max_depth c1" "\<forall>k\<in>set keys. length k < 124"
    using Cons.prems c1 by simp_all
  from Cons.IH[OF c1(2,3) this] c1 show ?case
    by (auto simp: open_objects_def)
qed

lemma add_string_member_effect:
  assumes "in_object ctx" "snprintf_fits 256 (quoted_key k @ [CHR 0x22] @ v @ [CHR 0x22])"
  shows "\<exists>ctx'. sjson_AddStringToObject ctx (Some k) (Some v) = Some (SJSON_OK, ctx') \<and>
           emitted ctx' = emitted ctx @ (if needs_comma ctx ! depth ctx then [CHR 0x2C] else []) @
                          quoted_key k @ [CHR 0x22] @ v @ [CHR 0x22] \<and>
           depth ctx' = depth ctx \<and> depth_stack ctx' = depth_stack ctx \<and>
           needs_comma ctx' = (needs_comma ctx)[depth ctx := True] \<and>
           finalized ctx' = finalized ctx \<and> max_depth ctx' = max_depth ctx"
proof -
  from assms(1) have g: "good ctx" by (simp add: in_object_def)
  have "sjson_AddStringToObject ctx (Some k) (Some v)
      = and_then (add_comma_if_needed ctx)
          (\<lambda>c. write_str c (quoted_key k @ [CHR 0x22] @ v @ [CHR 0x22]))"
    using in_object_check[OF assms(1)] assms(2) by (simp add: sjson_AddStringToObject_def Let_def)
  with comma_then_text[OF g, of "quoted_key k @ [CHR 0x22] @ v @ [CHR 0x22]"] show ?thesis by auto
qed

lemma add_string_element_effect:
  assumes "in_array ctx"
  shows "\<exists>ctx'. sjson_AddStringToArray ctx (Some v) = Some (SJSON_OK, ctx') \<and>
           emitted ctx' = emitted ctx @ (if needs_comma ctx ! depth ctx then [CHR 0x2C] else []) @
                          [CHR 0x22] @ v @ [CHR 0x22] \<and>
           depth ctx' = depth ctx \<and> depth_stack ctx' = depth_stack ctx \<and>
           needs_comma ctx' = (needs_comma ctx)[depth ctx := True] \<and>
           finalized ctx' = finalized ctx \<and> max_depth ctx' = max_depth ctx"
proof -
  from assms(1) have g: "good ctx" by (simp add: in_array_def)
  from add_comma_effect[OF g] obtain c1 where
    c1: "add_comma_if_needed ctx = Some (SJSON_OK, c1)" "good c1" "depth c1 = depth ctx"
      "depth_stack c1 = depth_stack ctx" "finalized c1 = finalized ctx"
      "max_depth c1 = max_depth ctx" "needs_comma c1 = (needs_comma ctx)[depth ctx := True]"
      "emitted c1 = emitted ctx @ (if needs_comma ctx ! depth ctx then [CHR 0x2C] else [])"
    by blast
  from write_data_effect[OF c1(2), of "[CHR 0x22]"] obtain c2 where
    c2: "write_char c1 (CHR 0x22) = Some (SJSON_OK, c2)" "good c2" "control c2 = control c1"
      "emitted c2 = emitted c1 @ [CHR 0x22]"
    unfolding write_char_def by blast
  from write_data_effect[OF c2(2), of v] obtain c3 where
    c3: "write_str c2 v = Some (SJSON_OK, c3)" "good c3" "control c3 = control c2"
      "emitted c3 = emitted c2 @ v"
    unfolding write_str_def by blast
  from write_data_effect[OF c3(2), of "[CHR 0x22]"] obtain c4 where
    c4: "write_char c3 (CHR 0x22) = Some (SJSON_OK, c4)" "good c4" "control c4 = control c3"
      "emitted c4 = emitted c3 @ [CHR 0x22]"
    unfolding write_char_def by blast
  have "sjson_AddStringToArray ctx (Some v) = Some (SJSON_OK, c4)"
    using in_array_check_array[OF assms] c1(1) c2(1) c3(1) c4(1)
    by (simp add: sjson_AddStringToArray_def and_then_def)
  with c1 c2 c3 c4 show ?thesis by (simp add: control_def)
qed


lemma max_depth_reached_accepting:
  assumes "0 < sz" "sz \<le> length buf" "\<forall>n bytes. callback n bytes"
    and "length keys = SJSON_MAX_DEPTH - 2" "\<forall>k\<in>set keys. length k < 124"
    and "if as_array then 0 < length k8 \<and> length k8 \<le> 128 else length k8 < 124"
    and "0 < length k" "length k \<le> 128"
    and "\<not> as_array \<longrightarrow> snprintf_fits 256 (quoted_key k @ [CHR 0x22] @ v @ [CHR 0x22])"
  shows "(\<exists>ctx. session to_float fmt_f True ctx0 buf sz callback
                   (open_objects keys @ [open_collection as_array k8])
                 = Some (replicate SJSON_MAX_DEPTH SJSON_OK, ctx) \<and>
            depth ctx = SJSON_MAX_DEPTH \<and>
            emitted ctx = concat (sink_bytes ctx0) @ [CHR 0x7B] @
                          concat (map (\<lambda>k. quoted_key k @ [CHR 0x7B]) keys) @
                          quoted_key k8 @ [if as_array then CHR 0x5B else CHR 0x7B] \<and>
            sjson_AddObjectToObject ctx (Some k)
              = Some (if as_array then SJSON_ERROR_INVALID_STATE else SJSON_ERROR_MAX_DEPTH, ctx) \<and>
            sjson_AddArrayToObject ctx (Some k)
              = Some (if as_array then SJSON_ERROR_INVALID_STATE else SJSON_ERROR_MAX_DEPTH, ctx) \<and>
            (\<exists>ctx'. (if as_array then sjson_AddStringToArray ctx (Some v)
                     else sjson_AddStringToObject ctx (Some k) (Some v)) = Some (SJSON_OK, ctx') \<and>
               emitted ctx' = emitted ctx @ (if as_array then [] else quoted_key k) @
                              [CHR 0x22] @ v @ [CHR 0x22] \<and>
               depth ctx' = depth ctx \<and> depth_stack ctx' = depth_stack ctx \<and>
               needs_comma ctx' = (needs_comma ctx)[depth ctx := True])) \<and>
         (\<exists>c. sjson_InitArray ctx0 (Some buf) sz (Some callback) = Some (SJSON_OK, c) \<and>
            depth c = 1 \<and>
            sjson_AddObjectToObject c (Some k) = Some (SJSON_ERROR_INVALID_STATE, c) \<and>
            sjson_AddArrayToObject c (Some k) = Some (SJSON_ERROR_INVALID_STATE, c))"
proof -
  from init_no_member_yet[OF assms(1-3), of "CHR 0x7B" "CHR 0x7D" ctx0] obtain i1 where
    i: "sjson_InitObject ctx0 (Some buf) sz (Some callback) = Some (SJSON_OK, i1)"
    and i1: "good i1" "\<not> finalized i1" "depth i1 = 1" "depth_stack i1 ! 0 = CHR 0x7D"
      "length (depth_stack i1) = SJSON_MAX_DEPTH + 1" "max_depth i1 = SJSON_MAX_DEPTH"
      "no_member_yet i1" "emitted i1 = concat (sink_bytes ctx0) @ [CHR 0x7B]"
    by (auto simp: sjson_InitObject_def)
  have io: "in_object i1" using i1 by (simp add: in_object_def)
  have "depth i1 + length keys \<le> max_depth i1"
    using i1 assms(4) by (simp add: SJSON_MAX_DEPTH_def)
  from open_objects_ok[OF io i1(7) this assms(5), of to_float fmt_f] obtain c6 where
    r6: "run_ops to_float fmt_f i1 (open_objects keys) = Some (replicate (length keys) SJSON_OK, c6)"
    and c6: "in_object c6" "no_member_yet c6" "depth c6 = depth i1 + length keys"
      "max_depth c6 = max_depth i1"
      "emitted c6 = emitted i1 @ concat (map (\<lambda>k. quoted_key k @ [CHR 0x7B]) keys)"
    by blast
  have d6: "depth c6 < max_depth c6" "max_depth c6 < length (needs_comma c6)"
    "\<not> needs_comma c6 ! depth c6"
    using c6 i1 assms(4) by (simp_all add: SJSON_MAX_DEPTH_def no_member_yet_def)
  from open_collection_ok[OF c6(1) d6(1,2) assms(6), of to_float fmt_f] d6(3) obtain ctx where
    r7: "apply_op to_float fmt_f (open_collection as_array k8) c6 = Some (SJSON_OK, ctx)"
    and c7: "if as_array then in_array ctx else in_object ctx" "no_member_yet ctx"
      "depth ctx = Suc (depth c6)" "max_depth ctx = max_depth c6"
      "emitted ctx = emitted c6 @ quoted_key k8 @ [if as_array then CHR 0x5B else CHR 0x7B]"
    by auto
  have dm: "depth ctx = SJSON_MAX_DEPTH" "max_depth ctx = SJSON_MAX_DEPTH"
    using c7 c6 i1 assms(4) by (simp_all add: SJSON_MAX_DEPTH_def)
  have st: "SJSON_OK # replicate (length keys) SJSON_OK @ [SJSON_OK] = replicate SJSON_MAX_DEPTH SJSON_OK"
    using assms(4) by (simp add: SJSON_MAX_DEPTH_def numeral_eq_Suc)
  have sess: "session to_float fmt_f True ctx0 buf sz callback
      (open_objects keys @ [open_collection as_array k8])
      = Some (replicate SJSON_MAX_DEPTH SJSON_OK, ctx)"
    using i r6 r7 st by (simp add: session_def run_ops_append)
  have em: "emitted ctx = concat (sink_bytes ctx0) @ [CHR 0x7B] @
      concat (map (\<lambda>k. quoted_key k @ [CHR 0x7B]) keys) @
      quoted_key k8 @ [if as_array then CHR 0x5B else CHR 0x7B]"
    using c7(5) c6(5) i1(8) by simp
  have nc: "\<not> needs_comma ctx ! depth ctx" using c7(2) by (simp add: no_member_yet_def)
  have o: "sjson_AddObjectToObject ctx (Some k)
      = Some (if as_array then SJSON_ERROR_INVALID_STATE else SJSON_ERROR_MAX_DEPTH, ctx)"
  proof (cases as_array)
    case True
    with c7(1) in_array_check[of ctx] show ?thesis by (simp add: sjson_AddObjectToObject_def)
  next
    case False
    with c7(1) in_object_check[of ctx] dm show ?thesis by (simp add: sjson_AddObjectToObject_def)
  qed
  have a: "sjson_AddArrayToObject ctx (Some k)
      = Some (if as_array then SJSON_ERROR_INVALID_STATE else SJSON_ERROR_MAX_DEPTH, ctx)"
  proof (cases as_array)
    case True
    with c7(1) in_array_check[of ctx] assms(7,8) show ?thesis
      by (simp add: sjson_AddArrayToObject_def)
  next
    case False
    with c7(1) in_object_check[of ctx] dm assms(7,8) show ?thesis
      by (simp add: sjson_AddArrayToObject_def)
  qed
  have m: "\<exists>ctx'. (if as_array then sjson_AddStringToArray ctx (Some v)
                     else sjson_AddStringToObject ctx (Some k) (Some v)) = Some (SJSON_OK, ctx') \<and>
               emitted ctx' = emitted ctx @ (if as_array then [] else quoted_key k) @
                              [CHR 0x22] @ v @ [CHR 0x22] \<and>
               depth ctx' = depth ctx \<and> depth_stack ctx' = depth_stack ctx \<and>
               needs_comma ctx' = (needs_comma ctx)[depth ctx := True]"
  proof (cases as_array)
    case True
    with c7(1) have "in_array ctx" by simp
    from add_string_element_effect[OF this, of v] nc True show ?thesis by auto
  next
    case False
    with c7(1) assms(9) have "in_object ctx"
      "snprintf_fits 256 (quoted_key k @ [CHR 0x22] @ v @ [CHR 0x22])" by simp_all
    from add_string_member_effect[OF this] nc False show ?thesis by auto
  qed
  from init_no_member_yet[OF assms(1-3), of "CHR 0x5B" "CHR 0x5D" ctx0] obtain c where
    ia: "sjson_InitArray ctx0 (Some buf) sz (Some callback) = Some (SJSON_OK, c)"
    and c: "good c" "\<not> finalized c" "depth c = 1" "depth_stack c ! 0 = CHR 0x5D"
      "length (depth_stack c) = SJSON_MAX_DEPTH + 1" "max_depth c = SJSON_MAX_DEPTH"
    by (auto simp: sjson_InitArray_def)
  have "in_array c" using c by (simp add: in_array_def)
  from in_array_check[OF this] assms(7,8)
  have ra: "sjson_AddObjectToObject c (Some k) = Some (SJSON_ERROR_INVALID_STATE, c)"
    "sjson_AddArrayToObject c (Some k) = Some (SJSON_ERROR_INVALID_STATE, c)"
    by (simp_all add: sjson_AddObjectToObject_def sjson_AddArrayToObject_def)
  from sess dm(1) em o a m ia c(3) ra show ?thesis by blast
qed

text \<open>At any sink: what an opening operation that returns \<open>SJSON_OK\<close> has done.\<close>

lemma and_then_OK:
  assumes "and_then r f = Some (SJSON_OK, c')"
  shows "\<exists>c. r = Some (SJSON_OK, c) \<and> f c = Some (SJSON_OK, c')"
  using assms by (auto simp: and_then_def split: option.splits if_splits)

lemma add_comma_frame:
  assumes "add_comma_if_needed ctx = Some (s, c)"
  shows "depth c = depth ctx \<and> depth_stack c = depth_stack ctx \<and> finalized c = finalized ctx \<and>
         max_depth c = max_depth ctx"
proof (cases "needs_comma ctx ! depth ctx")
  case False
  with assms show ?thesis by (auto simp: add_comma_if_needed_def)
next
  case True
  with assms obtain s1 c1 where w: "write_char ctx (CHR 0x2C) = Some (s1, c1)"
    and c: "c = c1 \<or> c = c1\<lparr>needs_comma := (needs_comma c1)[depth c1 := True]\<rparr>"
    by (auto simp: add_comma_if_needed_def and_then_def split: option.splits if_splits)
  from write_char_frame[OF w] c show ?thesis by (auto simp: control_def)
qed

lemma open_tail_frame:
  assumes "and_then (add_comma_if_needed ctx)
        (\<lambda>c1. if \<not> snprintf_fits cap str then Some (SJSON_ERROR_BUFFER_FULL, c1)
              else and_then (write_str c1 str) (\<lambda>c2. Some (SJSON_OK, push_closer c2 closer)))
        = Some (SJSON_OK, ctx')"
  shows "depth ctx' = Suc (depth ctx) \<and> depth_stack ctx' = (depth_stack ctx)[depth ctx := closer] \<and>
         max_depth ctx' = max_depth ctx \<and> finalized ctx' = finalized ctx"
proof -
  from and_then_OK[OF assms] obtain c1 where
    c1: "add_comma_if_needed ctx = Some (SJSON_OK, c1)"
    and r1: "and_then (write_str c1 str) (\<lambda>c2. Some (SJSON_OK, push_closer c2 closer))
        = Some (SJSON_OK, ctx')"
    by (auto split: if_splits)
  from and_then_OK[OF r1] obtain c2 where
    c2: "write_str c1 str = Some (SJSON_OK, c2)" and p: "ctx' = push_closer c2 closer"
    by auto
  note f1 = add_comma_frame[OF c1]
  from c2 write_data_frame[of c1 str SJSON_OK c2] have f2: "control c2 = control c1"
    by (simp add: write_str_def)
  from f1 f2 p show ?thesis
    by (simp add: push_closer_def Let_def control_def)
qed

lemma open_collection_frame:
  assumes "apply_op to_float fmt_f (open_collection as_array k) ctx = Some (SJSON_OK, ctx')"
  shows "check_object_state ctx = SJSON_OK \<and> depth ctx < max_depth ctx \<and>
         depth ctx' = Suc (depth ctx) \<and>
         depth_stack ctx' = (depth_stack ctx)[depth ctx := (if as_array then CHR 0x5D else CHR 0x7D)] \<and>
         max_depth ctx' = max_depth ctx \<and> finalized ctx' = finalized ctx"
proof (cases as_array)
  case True
  with assms have a: "sjson_AddArrayToObject ctx (Some k) = Some (SJSON_OK, ctx')"
    by (simp add: open_collection_def)
  then have ok: "check_object_state ctx = SJSON_OK \<and> depth ctx < max_depth ctx"
    by (auto simp: sjson_AddArrayToObject_def split: if_splits)
  with a have "and_then (add_comma_if_needed ctx)
        (\<lambda>c1. if \<not> snprintf_fits (128 + 5) (quoted_key k @ [CHR 0x5B])
              then Some (SJSON_ERROR_BUFFER_FULL, c1)
              else and_then (write_str c1 (quoted_key k @ [CHR 0x5B]))
                     (\<lambda>c2. Some (SJSON_OK, push_closer c2 (CHR 0x5D))))
        = Some (SJSON_OK, ctx')"
    by (auto simp: sjson_AddArrayToObject_def Let_def split: if_splits)
  from open_tail_frame[OF this] ok True show ?thesis by simp
next
  case False
  with assms have a: "sjson_AddObjectToObject ctx (Some k) = Some (SJSON_OK, ctx')"
    by (simp add: open_collection_def)
  then have ok: "check_object_state ctx = SJSON_OK \<and> depth ctx < max_depth ctx"
    by (auto simp: sjson_AddObjectToObject_def split: if_splits)
  with a have "and_then (add_comma_if_needed ctx)
        (\<lambda>c1. if \<not> snprintf_fits 128 (quoted_key k @ [CHR 0x7B])
              then Some (SJSON_ERROR_BUFFER_FULL, c1)
              else and_then (write_str c1 (quoted_key k @ [CHR 0x7B]))
                     (\<lambda>c2. Some (SJSON_OK, push_closer c2 (CHR 0x7D))))
        = Some (SJSON_OK, ctx')"
    by (auto simp: sjson_AddObjectToObject_def Let_def split: if_splits)
  from open_tail_frame[OF this] ok False show ?thesis by simp
qed

lemma init_frame:
  assumes "sjson_Init opener closer ctx0 (Some buf) sz (Some callback) = Some (SJSON_OK, c)"
  shows "depth c = 1 \<and> depth_stack c = (replicate (SJSON_MAX_DEPTH + 1) (CHR 0x00))[0 := closer] \<and>
         max_depth c = SJSON_MAX_DEPTH \<and> \<not> finalized c"
proof -
  define i1 where "i1 = ctx0\<lparr>buffer := buf, buffer_size := sz, used := 0,
      send_callback := callback, depth := 0, max_depth := SJSON_MAX_DEPTH, finalized := False,
      depth_stack := replicate (SJSON_MAX_DEPTH + 1) (CHR 0x00),
      needs_comma := replicate (SJSON_MAX_DEPTH + 1) False\<rparr>"
  from assms have "and_then (write_char i1 opener) (\<lambda>c2. Some (SJSON_OK, push_closer c2 closer))
      = Some (SJSON_OK, c)"
    by (simp add: sjson_Init_def i1_def Let_def push_closer_def split: if_splits)
  from and_then_OK[OF this] obtain c2 where
    w: "write_char i1 opener = Some (SJSON_OK, c2)" and p: "c = push_closer c2 closer"
    by auto
  from write_char_frame[OF w] have "control c2 = control i1" by simp
  with p show ?thesis by (simp add: push_closer_def Let_def control_def i1_def)
qed

lemma open_collections_frame:
  assumes "run_ops to_float fmt_f ctx (open_collections specs) = Some (statuses, ctx')"
    and "list_all (\<lambda>s. s = SJSON_OK) statuses"
    and "max_depth ctx < length (depth_stack ctx)" and "specs \<noteq> []"
  shows "check_object_state ctx = SJSON_OK \<and> depth ctx' = depth ctx + length specs \<and>
         depth ctx' \<le> max_depth ctx' \<and> max_depth ctx' = max_depth ctx \<and>
         finalized ctx' = finalized ctx \<and>
         depth_stack ctx' ! (depth ctx + length specs - 1)
           = (if fst (last specs) then CHR 0x5D else CHR 0x7D)"
  using assms
proof (induction specs arbitrary: ctx statuses)
  case Nil
  then show ?case by simp
next
  case (Cons x specs)
  obtain as_array k where x: "x = (as_array, k)" by (cases x)
  from Cons.prems(1) x obtain s c1 rest where
    a: "apply_op to_float fmt_f (open_collection as_array k) ctx = Some (s, c1)"
    and r: "run_ops to_float fmt_f c1 (open_collections specs) = Some (rest, ctx')"
    and st: "statuses = s # rest"
    by (auto simp: open_collections_def split: option.splits)
  from st Cons.prems(2) have s: "s = SJSON_OK" and ro: "list_all (\<lambda>s. s = SJSON_OK) rest"
    by simp_all
  note f = open_collection_frame[OF a[unfolded s]]
  have len: "max_depth c1 < length (depth_stack c1)" using f Cons.prems(3) by simp
  show ?case
  proof (cases "specs = []")
    case True
    with r have "ctx' = c1" by (simp add: open_collections_def)
    with f x True Cons.prems(3) show ?thesis by simp
  next
    case False
    from Cons.IH[OF r ro len False] f False show ?thesis by simp
  qed
qed

lemma max_depth_reached:
  assumes "session to_float fmt_f as_object ctx0 buf sz callback (open_collections specs)
             = Some (statuses, ctx)"
    and "list_all (\<lambda>s. s = SJSON_OK) statuses" and "length specs = SJSON_MAX_DEPTH - 1"
  shows "as_object \<and> depth ctx = SJSON_MAX_DEPTH \<and>
         sjson_AddObjectToObject ctx (Some k)
           = Some (if fst (last specs) then SJSON_ERROR_INVALID_STATE else SJSON_ERROR_MAX_DEPTH, ctx) \<and>
         (0 < length k \<and> length k \<le> 128 \<longrightarrow>
            sjson_AddArrayToObject ctx (Some k)
              = Some (if fst (last specs) then SJSON_ERROR_INVALID_STATE else SJSON_ERROR_MAX_DEPTH, ctx))"
proof -
  define opener where "opener = (if as_object then CHR 0x7B else CHR 0x5B)"
  define closer where "closer = (if as_object then CHR 0x7D else CHR 0x5D)"
  from assms(1) obtain s c0 rest where
    i: "sjson_Init opener closer ctx0 (Some buf) sz (Some callback) = Some (s, c0)"
    and r: "run_ops to_float fmt_f c0 (open_collections specs) = Some (rest, ctx)"
    and st: "statuses = s # rest"
    by (auto simp: session_def sjson_InitObject_def sjson_InitArray_def opener_def closer_def
        split: option.splits if_splits)
  from st assms(2) have s: "s = SJSON_OK" and ro: "list_all (\<lambda>s. s = SJSON_OK) rest"
    by simp_all
  note f0 = init_frame[OF i[unfolded s]]
  have len: "max_depth c0 < length (depth_stack c0)" using f0 by simp
  have ne: "specs \<noteq> []" using assms(3) by (auto simp: SJSON_MAX_DEPTH_def)
  note f = open_collections_frame[OF r ro len ne]
  from f f0 have "closer = CHR 0x7D"
    by (auto simp: check_object_state_def SJSON_MAX_DEPTH_def split: if_splits)
  then have ao: as_object by (auto simp: closer_def split: if_splits)
  have d: "depth ctx = SJSON_MAX_DEPTH" "max_depth ctx = SJSON_MAX_DEPTH" "\<not> finalized ctx"
    "depth_stack ctx ! (SJSON_MAX_DEPTH - 1) = (if fst (last specs) then CHR 0x5D else CHR 0x7D)"
    using f f0 assms(3) by (simp_all add: SJSON_MAX_DEPTH_def)
  have c: "check_object_state ctx
      = (if fst (last specs) then SJSON_ERROR_INVALID_STATE else SJSON_OK)"
    using d by (simp add: check_object_state_def SJSON_MAX_DEPTH_def)
  from ao d c show ?thesis
    by (simp add: sjson_AddObjectToObject_def sjson_AddArrayToObject_def)
qed

text \<open>
  Claim C6, as amended. The code opens a collection inside an object only, so the open
  collections are objects up to the last, which is an object or an array.

  At any sink and from any context: when \<^verbatim>\<open>sjson_InitObject\<close> or \<^verbatim>\<open>sjson_InitArray\<close> and then
  \<open>SJSON_MAX_DEPTH - 1\<close> opening operations (\<^verbatim>\<open>sjson_AddObjectToObject\<close> or
  \<^verbatim>\<open>sjson_AddArrayToObject\<close>, in any order and with any keys) have all returned \<open>SJSON_OK\<close>,
  the root is an object, \<open>SJSON_MAX_DEPTH\<close> collections are open, and a further
  \<^verbatim>\<open>sjson_AddObjectToObject\<close> or \<^verbatim>\<open>sjson_AddArrayToObject\<close> leaves the context exactly as it
  was; it returns \<open>SJSON_ERROR_MAX_DEPTH\<close> if the last collection opened is an object and
  \<open>SJSON_ERROR_INVALID_STATE\<close> if it is an array.

  At a sink that accepts whatever it is offered, with keys that fit the formatting buffers:
  \<^verbatim>\<open>sjson_InitObject\<close>, six times \<^verbatim>\<open>sjson_AddObjectToObject\<close> and then
  \<^verbatim>\<open>sjson_AddObjectToObject\<close> or \<^verbatim>\<open>sjson_AddArrayToObject\<close> do all return \<open>SJSON_OK\<close>, leave
  \<open>SJSON_MAX_DEPTH\<close> collections open and have written the opening of each; the further
  opening operation fails as said; and after it a string member (in the object) or a string
  element (in the array) is still added: the call returns \<open>SJSON_OK\<close>, writes the member or
  the element, keeps the depth and the closer stack and sets the comma flag of that depth.
  In a root array both opening operations return \<open>SJSON_ERROR_INVALID_STATE\<close> and leave the
  context as it was.
\<close>

theorem max_depth_boundary_by_kind:
  "(session to_float fmt_f as_object ctx0 buf sz callback (open_collections specs)
      = Some (statuses, ctx) \<and>
    list_all (\<lambda>s. s = SJSON_OK) statuses \<and> length specs = SJSON_MAX_DEPTH - 1 \<longrightarrow>
      as_object \<and> depth ctx = SJSON_MAX_DEPTH \<and>
      sjson_AddObjectToObject ctx (Some k)
        = Some (if fst (last specs) then SJSON_ERROR_INVALID_STATE else SJSON_ERROR_MAX_DEPTH, ctx) \<and>
      (0 < length k \<and> length k \<le> 128 \<longrightarrow>
         sjson_AddArrayToObject ctx (Some k)
           = Some (if fst (last specs) then SJSON_ERROR_INVALID_STATE else SJSON_ERROR_MAX_DEPTH, ctx))) \<and>
   (0 < sz \<and> sz \<le> length buf \<and> (\<forall>n bytes. accept n bytes) \<and>
    length keys = SJSON_MAX_DEPTH - 2 \<and> (\<forall>key\<in>set keys. length key < 124) \<and>
    (if as_array then 0 < length k8 \<and> length k8 \<le> 128 else length k8 < 124) \<and>
    0 < length k \<and> length k \<le> 128 \<and>
    (\<not> as_array \<longrightarrow> snprintf_fits 256 (quoted_key k @ [CHR 0x22] @ v @ [CHR 0x22])) \<longrightarrow>
      (\<exists>c. session to_float fmt_f True ctx0 buf sz accept
                 (open_objects keys @ [open_collection as_array k8])
               = Some (replicate SJSON_MAX_DEPTH SJSON_OK, c) \<and>
          depth c = SJSON_MAX_DEPTH \<and>
          emitted c = concat (sink_bytes ctx0) @ [CHR 0x7B] @
                      concat (map (\<lambda>key. quoted_key key @ [CHR 0x7B]) keys) @
                      quoted_key k8 @ [if as_array then CHR 0x5B else CHR 0x7B] \<and>
          sjson_AddObjectToObject c (Some k)
            = Some (if as_array then SJSON_ERROR_INVALID_STATE else SJSON_ERROR_MAX_DEPTH, c) \<and>
          sjson_AddArrayToObject c (Some k)
            = Some (if as_array then SJSON_ERROR_INVALID_STATE else SJSON_ERROR_MAX_DEPTH, c) \<and>
          (\<exists>c'. (if as_array then sjson_AddStringToArray c (Some v)
                  else sjson_AddStringToObject c (Some k) (Some v)) = Some (SJSON_OK, c') \<and>
             emitted c' = emitted c @ (if as_array then [] else quoted_key k) @
                          [CHR 0x22] @ v @ [CHR 0x22] \<and>
             depth c' = depth c \<and> depth_stack c' = depth_stack c \<and>
             needs_comma c' = (needs_comma c)[depth c := True])) \<and>
      (\<exists>c. sjson_InitArray ctx0 (Some buf) sz (Some accept) = Some (SJSON_OK, c) \<and>
         depth c = 1 \<and>
         sjson_AddObjectToObject c (Some k) = Some (SJSON_ERROR_INVALID_STATE, c) \<and>
         sjson_AddArrayToObject c (Some k) = Some (SJSON_ERROR_INVALID_STATE, c)))"
proof -
  have a: "session to_float fmt_f as_object ctx0 buf sz callback (open_collections specs)
      = Some (statuses, ctx) \<and>
    list_all (\<lambda>s. s = SJSON_OK) statuses \<and> length specs = SJSON_MAX_DEPTH - 1 \<longrightarrow>
      as_object \<and> depth ctx = SJSON_MAX_DEPTH \<and>
      sjson_AddObjectToObject ctx (Some k)
        = Some (if fst (last specs) then SJSON_ERROR_INVALID_STATE else SJSON_ERROR_MAX_DEPTH, ctx) \<and>
      (0 < length k \<and> length k \<le> 128 \<longrightarrow>
         sjson_AddArrayToObject ctx (Some k)
           = Some (if fst (last specs) then SJSON_ERROR_INVALID_STATE else SJSON_ERROR_MAX_DEPTH, ctx))"
    using max_depth_reached[of to_float fmt_f as_object ctx0 buf sz callback specs statuses ctx k]
    by blast
  have b: "0 < sz \<and> sz \<le> length buf \<and> (\<forall>n bytes. accept n bytes) \<and>
    length keys = SJSON_MAX_DEPTH - 2 \<and> (\<forall>key\<in>set keys. length key < 124) \<and>
    (if as_array then 0 < length k8 \<and> length k8 \<le> 128 else length k8 < 124) \<and>
    0 < length k \<and> length k \<le> 128 \<and>
    (\<not> as_array \<longrightarrow> snprintf_fits 256 (quoted_key k @ [CHR 0x22] @ v @ [CHR 0x22])) \<longrightarrow>
      (\<exists>c. session to_float fmt_f True ctx0 buf sz accept
                 (open_objects keys @ [open_collection as_array k8])
               = Some (replicate SJSON_MAX_DEPTH SJSON_OK, c) \<and>
          depth c = SJSON_MAX_DEPTH \<and>
          emitted c = concat (sink_bytes ctx0) @ [CHR 0x7B] @
                      concat (map (\<lambda>key. quoted_key key @ [CHR 0x7B]) keys) @
                      quoted_key k8 @ [if as_array then CHR 0x5B else CHR 0x7B] \<and>
          sjson_AddObjectToObject c (Some k)
            = Some (if as_array then SJSON_ERROR_INVALID_STATE else SJSON_ERROR_MAX_DEPTH, c) \<and>
          sjson_AddArrayToObject c (Some k)
            = Some (if as_array then SJSON_ERROR_INVALID_STATE else SJSON_ERROR_MAX_DEPTH, c) \<and>
          (\<exists>c'. (if as_array then sjson_AddStringToArray c (Some v)
                  else sjson_AddStringToObject c (Some k) (Some v)) = Some (SJSON_OK, c') \<and>
             emitted c' = emitted c @ (if as_array then [] else quoted_key k) @
                          [CHR 0x22] @ v @ [CHR 0x22] \<and>
             depth c' = depth c \<and> depth_stack c' = depth_stack c \<and>
             needs_comma c' = (needs_comma c)[depth c := True])) \<and>
      (\<exists>c. sjson_InitArray ctx0 (Some buf) sz (Some accept) = Some (SJSON_OK, c) \<and>
         depth c = 1 \<and>
         sjson_AddObjectToObject c (Some k) = Some (SJSON_ERROR_INVALID_STATE, c) \<and>
         sjson_AddArrayToObject c (Some k) = Some (SJSON_ERROR_INVALID_STATE, c))"
    by (rule impI, elim conjE, rule max_depth_reached_accepting) assumption+
  from a b show ?thesis by (rule conjI)
qed

theorem max_depth_boundary_by_kind_witness:
  \<open>(\<exists>ctx. session id zero_fmt True blank_context (replicate 64 (CHR 0x00)) 64 never_accept
             (open_collections six_objects_then_array)
           = Some (replicate SJSON_MAX_DEPTH SJSON_OK, ctx) \<and>
      list_all (\<lambda>s. s = SJSON_OK) (replicate SJSON_MAX_DEPTH SJSON_OK) \<and>
      length six_objects_then_array = SJSON_MAX_DEPTH - 1 \<and>
      depth ctx = SJSON_MAX_DEPTH \<and>
      sjson_AddObjectToObject ctx (Some ''h'') = Some (SJSON_ERROR_INVALID_STATE, ctx) \<and>
      sjson_AddArrayToObject ctx (Some ''h'') = Some (SJSON_ERROR_INVALID_STATE, ctx)) \<and>
   0 < (4::nat) \<and> 4 \<le> length (replicate 4 (CHR 0x00)) \<and> (\<forall>n bytes. always_accept n bytes) \<and>
   length six_keys = SJSON_MAX_DEPTH - 2 \<and> list_all (\<lambda>k. length k < 124) six_keys \<and>
   0 < length ''g'' \<and> length ''g'' < 124 \<and> 0 < length ''h'' \<and> length ''h'' \<le> 128 \<and>
   snprintf_fits 256 (quoted_key ''h'' @ [CHR 0x22] @ ''v'' @ [CHR 0x22]) \<and>
   (\<exists>ctx. session id zero_fmt True blank_context (replicate 4 (CHR 0x00)) 4 always_accept
             (open_objects six_keys @ [Op_AddObjectToObject (Some ''g'')])
           = Some (replicate SJSON_MAX_DEPTH SJSON_OK, ctx) \<and>
      depth ctx = SJSON_MAX_DEPTH \<and>
      emitted ctx = ''{"a":{"b":{"c":{"d":{"e":{"f":{"g":{'' \<and>
      sjson_AddObjectToObject ctx (Some ''h'') = Some (SJSON_ERROR_MAX_DEPTH, ctx) \<and>
      sjson_AddArrayToObject ctx (Some ''h'') = Some (SJSON_ERROR_MAX_DEPTH, ctx) \<and>
      (\<exists>ctx'. sjson_AddStringToObject ctx (Some ''h'') (Some ''v'') = Some (SJSON_OK, ctx') \<and>
         emitted ctx' = emitted ctx @ ''"h":"v"'' \<and> depth ctx' = depth ctx)) \<and>
   (\<exists>ctx. session id zero_fmt True blank_context (replicate 4 (CHR 0x00)) 4 always_accept
             (open_objects six_keys @ [Op_AddArrayToObject (Some ''g'')])
           = Some (replicate SJSON_MAX_DEPTH SJSON_OK, ctx) \<and>
      depth ctx = SJSON_MAX_DEPTH \<and>
      emitted ctx = ''{"a":{"b":{"c":{"d":{"e":{"f":{"g":['' \<and>
      sjson_AddObjectToObject ctx (Some ''h'') = Some (SJSON_ERROR_INVALID_STATE, ctx) \<and>
      sjson_AddArrayToObject ctx (Some ''h'') = Some (SJSON_ERROR_INVALID_STATE, ctx) \<and>
      (\<exists>ctx'. sjson_AddStringToArray ctx (Some ''v'') = Some (SJSON_OK, ctx') \<and>
         emitted ctx' = emitted ctx @ ''"v"'' \<and> depth ctx' = depth ctx)) \<and>
   (\<exists>c. sjson_InitArray blank_context (Some (replicate 4 (CHR 0x00))) 4 (Some always_accept)
           = Some (SJSON_OK, c) \<and>
      depth c = 1 \<and>
      sjson_AddObjectToObject c (Some ''h'') = Some (SJSON_ERROR_INVALID_STATE, c) \<and>
      sjson_AddArrayToObject c (Some ''h'') = Some (SJSON_ERROR_INVALID_STATE, c))\<close>
proof -
  have l: "0 < length ''g''" "length ''g'' < 124" "0 < length ''h''" "length ''h'' \<le> 128"
    by simp_all
  have "map_option fst (session id zero_fmt True blank_context (replicate 64 (CHR 0x00)) 64
      never_accept (open_collections six_objects_then_array))
      = Some (replicate SJSON_MAX_DEPTH SJSON_OK)"
    by code_simp
  then obtain c0 where
    s0: "session id zero_fmt True blank_context (replicate 64 (CHR 0x00)) 64 never_accept
        (open_collections six_objects_then_array) = Some (replicate SJSON_MAX_DEPTH SJSON_OK, c0)"
    by auto
  have a0: "list_all (\<lambda>s. s = SJSON_OK) (replicate SJSON_MAX_DEPTH SJSON_OK)"
    "length six_objects_then_array = SJSON_MAX_DEPTH - 1"
    "fst (last six_objects_then_array)"
    by (simp_all add: list_all_iff six_objects_then_array_def six_keys_def SJSON_MAX_DEPTH_def)
  from max_depth_boundary_by_kind[where as_object=True and ?ctx0.0=blank_context and
      buf="replicate 64 (CHR 0x00)" and sz=64 and callback=never_accept and
      specs=six_objects_then_array and statuses="replicate SJSON_MAX_DEPTH SJSON_OK" and
      ctx=c0 and k="''h''" and to_float=id and fmt_f=zero_fmt] s0 a0 l
  have g: "\<exists>ctx. session id zero_fmt True blank_context (replicate 64 (CHR 0x00)) 64 never_accept
             (open_collections six_objects_then_array)
           = Some (replicate SJSON_MAX_DEPTH SJSON_OK, ctx) \<and>
      list_all (\<lambda>s. s = SJSON_OK) (replicate SJSON_MAX_DEPTH SJSON_OK) \<and>
      length six_objects_then_array = SJSON_MAX_DEPTH - 1 \<and>
      depth ctx = SJSON_MAX_DEPTH \<and>
      sjson_AddObjectToObject ctx (Some ''h'') = Some (SJSON_ERROR_INVALID_STATE, ctx) \<and>
      sjson_AddArrayToObject ctx (Some ''h'') = Some (SJSON_ERROR_INVALID_STATE, ctx)"
    by auto
  have h: "0 < (4::nat)" "4 \<le> length (replicate 4 (CHR 0x00))" "\<forall>n bytes. always_accept n bytes"
    "length six_keys = SJSON_MAX_DEPTH - 2" "\<forall>k\<in>set six_keys. length k < 124"
    by (simp_all add: always_accept_def six_keys_def SJSON_MAX_DEPTH_def)
  have la: "list_all (\<lambda>k. length k < 124) six_keys" by (simp add: six_keys_def)
  have fits: "snprintf_fits 256 (quoted_key ''h'' @ [CHR 0x22] @ ''v'' @ [CHR 0x22])"
    by (simp add: snprintf_fits_def quoted_key_def)
  have e: \<open>concat (sink_bytes blank_context) @ [CHR 0x7B] @
       concat (map (\<lambda>k. quoted_key k @ [CHR 0x7B]) six_keys) @ quoted_key ''g'' @ [CHR 0x7B]
       = ''{"a":{"b":{"c":{"d":{"e":{"f":{"g":{''\<close>
    \<open>concat (sink_bytes blank_context) @ [CHR 0x7B] @
       concat (map (\<lambda>k. quoted_key k @ [CHR 0x7B]) six_keys) @ quoted_key ''g'' @ [CHR 0x5B]
       = ''{"a":{"b":{"c":{"d":{"e":{"f":{"g":[''\<close>
    \<open>quoted_key ''h'' @ [CHR 0x22] @ ''v'' @ [CHR 0x22] = ''"h":"v"''\<close>
    by (simp_all add: blank_context_def six_keys_def quoted_key_def)
  from max_depth_boundary_by_kind[where sz=4 and buf="replicate 4 (CHR 0x00)" and
      accept=always_accept and keys=six_keys and as_array=False and ?k8.0="''g''" and
      k="''h''" and v="''v''" and to_float=id and fmt_f=zero_fmt and ?ctx0.0=blank_context]
    h l fits
  have o: \<open>\<exists>ctx. session id zero_fmt True blank_context (replicate 4 (CHR 0x00)) 4 always_accept
             (open_objects six_keys @ [Op_AddObjectToObject (Some ''g'')])
           = Some (replicate SJSON_MAX_DEPTH SJSON_OK, ctx) \<and>
      depth ctx = SJSON_MAX_DEPTH \<and>
      emitted ctx = ''{"a":{"b":{"c":{"d":{"e":{"f":{"g":{'' \<and>
      sjson_AddObjectToObject ctx (Some ''h'') = Some (SJSON_ERROR_MAX_DEPTH, ctx) \<and>
      sjson_AddArrayToObject ctx (Some ''h'') = Some (SJSON_ERROR_MAX_DEPTH, ctx) \<and>
      (\<exists>ctx'. sjson_AddStringToObject ctx (Some ''h'') (Some ''v'') = Some (SJSON_OK, ctx') \<and>
         emitted ctx' = emitted ctx @ ''"h":"v"'' \<and> depth ctx' = depth ctx)\<close>
    unfolding e[symmetric] by (simp add: open_collection_def) blast
  from max_depth_boundary_by_kind[where sz=4 and buf="replicate 4 (CHR 0x00)" and
      accept=always_accept and keys=six_keys and as_array=True and ?k8.0="''g''" and
      k="''h''" and v="''v''" and to_float=id and fmt_f=zero_fmt and ?ctx0.0=blank_context]
    h l fits
  have a: \<open>(\<exists>ctx. session id zero_fmt True blank_context (replicate 4 (CHR 0x00)) 4 always_accept
             (open_objects six_keys @ [Op_AddArrayToObject (Some ''g'')])
           = Some (replicate SJSON_MAX_DEPTH SJSON_OK, ctx) \<and>
      depth ctx = SJSON_MAX_DEPTH \<and>
      emitted ctx = ''{"a":{"b":{"c":{"d":{"e":{"f":{"g":['' \<and>
      sjson_AddObjectToObject ctx (Some ''h'') = Some (SJSON_ERROR_INVALID_STATE, ctx) \<and>
      sjson_AddArrayToObject ctx (Some ''h'') = Some (SJSON_ERROR_INVALID_STATE, ctx) \<and>
      (\<exists>ctx'. sjson_AddStringToArray ctx (Some ''v'') = Some (SJSON_OK, ctx') \<and>
         emitted ctx' = emitted ctx @ ''"v"'' \<and> depth ctx' = depth ctx)) \<and>
   (\<exists>c. sjson_InitArray blank_context (Some (replicate 4 (CHR 0x00))) 4 (Some always_accept)
           = Some (SJSON_OK, c) \<and>
      depth c = 1 \<and>
      sjson_AddObjectToObject c (Some ''h'') = Some (SJSON_ERROR_INVALID_STATE, c) \<and>
      sjson_AddArrayToObject c (Some ''h'') = Some (SJSON_ERROR_INVALID_STATE, c))\<close>
    unfolding e[symmetric] by (simp add: open_collection_def) blast
  from g h(1-4) la l fits o a show ?thesis by blast
qed

text \<open>
  Claim C6 as stated fails when the last of the \<open>SJSON_MAX_DEPTH\<close> open collections is an
  array: after \<^verbatim>\<open>sjson_InitObject\<close>, six nested objects and \<^verbatim>\<open>sjson_AddArrayToObject\<close>, all
  returning \<open>SJSON_OK\<close>, the next \<^verbatim>\<open>sjson_AddObjectToObject\<close> returns
  \<open>SJSON_ERROR_INVALID_STATE\<close>, not \<open>SJSON_ERROR_MAX_DEPTH\<close>: the state of the innermost
  collection is tested before the depth.
\<close>

theorem max_depth_open_in_array_counterexample:
  "map_option (\<lambda>r. (fst r, depth (snd r)))
     (session id zero_fmt True blank_context (replicate 4 (CHR 0x00)) 4 always_accept
        (open_objects six_keys @ [Op_AddArrayToObject (Some ''g''), Op_AddObjectToObject (Some ''h'')]))
     = Some (replicate SJSON_MAX_DEPTH SJSON_OK @ [SJSON_ERROR_INVALID_STATE], SJSON_MAX_DEPTH)"
  by code_simp

subsection \<open>Numbers\<close>

lemmas float_eval = double_to_float_def fmt_6f_def bit_length.simps round_half_even_def
  dec_digits.simps six_digits_def digit_char_def float_sign_text_def

text \<open>
  \<open>round_half_even n d\<close> times \<open>d\<close> is within half of \<open>d\<close> of \<open>n\<close>, and \<open>bit_length n\<close> is the
  position of the leading binary digit of \<open>n\<close>.
\<close>

lemma round_half_even_nearest:
  assumes "0 < d"
  shows "2 * (n - round_half_even n d * d) \<le> d \<and> 2 * (round_half_even n d * d - n) \<le> d"
proof -
  have n: "n = n div d * d + n mod d" by simp
  have r: "n mod d < d" using assms by simp
  consider (lo) "2 * (n mod d) < d" | (hi) "d < 2 * (n mod d)"
    | (tie_even) "2 * (n mod d) = d" "even (n div d)"
    | (tie_odd) "2 * (n mod d) = d" "odd (n div d)"
    by linarith
  then show ?thesis
  proof cases
    case lo
    then have "round_half_even n d = n div d" by (simp add: round_half_even_def Let_def)
    moreover have "n - n div d * d = n mod d" by (metis n add_diff_cancel_left')
    ultimately show ?thesis using lo by simp
  next
    case hi
    then have e: "round_half_even n d = n div d + 1" by (simp add: round_half_even_def Let_def)
    have "(n div d + 1) * d - n = d - n mod d"
      using n r by (metis add.commute add_mult_distrib diff_diff_left diff_add_inverse mult_1 add_diff_cancel_left')
    with e hi r show ?thesis by simp
  next
    case tie_even
    then have "round_half_even n d = n div d" by (simp add: round_half_even_def Let_def)
    moreover have "n - n div d * d = n mod d" by (metis n add_diff_cancel_left')
    ultimately show ?thesis using tie_even by simp
  next
    case tie_odd
    then have e: "round_half_even n d = n div d + 1" by (simp add: round_half_even_def Let_def)
    have "(n div d + 1) * d - n = d - n mod d"
      using n r by (metis add.commute add_mult_distrib diff_diff_left diff_add_inverse mult_1 add_diff_cancel_left')
    with e tie_odd r show ?thesis by simp
  qed
qed

lemma bit_length_bounds: "n < 2 ^ bit_length n \<and> (0 < n \<longrightarrow> 2 ^ (bit_length n - 1) \<le> n)"
proof (induction n rule: bit_length.induct)
  case (1 n)
  show ?case
  proof (cases "n = 0")
    case True
    then show ?thesis by (simp add: bit_length.simps)
  next
    case False
    with 1 have ih: "n div 2 < 2 ^ bit_length (n div 2)"
      "0 < n div 2 \<longrightarrow> 2 ^ (bit_length (n div 2) - 1) \<le> n div 2" by simp_all
    have b: "bit_length n = Suc (bit_length (n div 2))" using False by (subst bit_length.simps) simp
    have "n < 2 * 2 ^ bit_length (n div 2)" using ih(1) by linarith
    moreover have "2 ^ bit_length (n div 2) \<le> n"
    proof (cases "n div 2 = 0")
      case True
      with False have "n = 1" by linarith
      then show ?thesis by (simp add: bit_length.simps)
    next
      case False
      then have "0 < bit_length (n div 2)" by (subst bit_length.simps) simp
      then have "(2::nat) ^ bit_length (n div 2) = 2 * 2 ^ (bit_length (n div 2) - 1)"
        by (cases "bit_length (n div 2)") simp_all
      with ih(2) False show ?thesis by linarith
    qed
    ultimately show ?thesis using b by simp
  qed
qed

lemma digit_char_digit: "n < 10 \<Longrightarrow> is_dec_digit (digit_char n)"
proof -
  have "list_all (\<lambda>n. is_dec_digit (digit_char n)) [0..<10]" by code_simp
  then show "n < 10 \<Longrightarrow> is_dec_digit (digit_char n)" by (simp add: list_all_iff)
qed

lemma dec_digits_digits: "list_all is_dec_digit (dec_digits n) \<and> dec_digits n \<noteq> []"
proof (induction n rule: dec_digits.induct)
  case (1 n)
  show ?case
  proof (cases "n < 10")
    case True
    then show ?thesis by (subst (1 2) dec_digits.simps) (simp add: digit_char_digit)
  next
    case False
    with 1 show ?thesis by (subst (1 2) dec_digits.simps) (simp add: digit_char_digit)
  qed
qed

lemma six_digits_digits: "list_all is_dec_digit (six_digits n) \<and> length (six_digits n) = 6"
  by (simp add: six_digits_def digit_char_digit)

lemma fmt_6f_shape:
  "\<exists>whole frac. fmt_6f f = float_sign_text f @
       (if float_is_finite f then whole @ [CHR 0x2E] @ frac
        else if unat f mod 2 ^ 23 = 0 then ''inf'' else ''nan'') \<and>
     whole \<noteq> [] \<and> list_all is_dec_digit whole \<and> length frac = 6 \<and> list_all is_dec_digit frac"
proof (cases "float_is_finite f")
  case True
  define e where "e = (unat f div 2 ^ 23) mod 256"
  define M where "M = (if e = 0 then unat f mod 2 ^ 23 else 2 ^ 23 + unat f mod 2 ^ 23)"
  define N where "N = (if 150 \<le> e then M * 10 ^ 6 * 2 ^ (e - 150)
                     else round_half_even (M * 10 ^ 6) (2 ^ (if e = 0 then 149 else 150 - e)))"
  from True have "fmt_6f f = float_sign_text f @ dec_digits (N div 10 ^ 6) @ [CHR 0x2E] @ six_digits (N mod 10 ^ 6)"
    unfolding fmt_6f_def float_is_finite_def N_def M_def e_def by (simp add: Let_def)
  with True dec_digits_digits[of "N div 10 ^ 6"] six_digits_digits[of "N mod 10 ^ 6"]
  show ?thesis by auto
next
  case False
  then have "fmt_6f f = float_sign_text f @ (if unat f mod 2 ^ 23 = 0 then ''inf'' else ''nan'')"
    unfolding fmt_6f_def float_is_finite_def by (simp add: Let_def)
  with False dec_digits_digits[of 0] six_digits_digits[of 0] show ?thesis by auto
qed

lemma add_float_member_effect:
  assumes "in_object ctx" "snprintf_fits 128 (quoted_key k @ fmt_f x)"
  shows "\<exists>ctx'. sjson_AddFloatToObject fmt_f ctx (Some k) x = Some (SJSON_OK, ctx') \<and>
           emitted ctx' = emitted ctx @ (if needs_comma ctx ! depth ctx then [CHR 0x2C] else []) @
                          quoted_key k @ fmt_f x \<and>
           depth ctx' = depth ctx \<and> depth_stack ctx' = depth_stack ctx \<and>
           needs_comma ctx' = (needs_comma ctx)[depth ctx := True] \<and>
           finalized ctx' = finalized ctx \<and> max_depth ctx' = max_depth ctx"
proof -
  from assms(1) have g: "good ctx" by (simp add: in_object_def)
  have "sjson_AddFloatToObject fmt_f ctx (Some k) x
      = and_then (add_comma_if_needed ctx) (\<lambda>c. write_str c (quoted_key k @ fmt_f x))"
    using in_object_check[OF assms(1)] assms(2) by (simp add: sjson_AddFloatToObject_def Let_def)
  with comma_then_text[OF g, of "quoted_key k @ fmt_f x"] show ?thesis by auto
qed

text \<open>
  The cast loses what a \<^verbatim>\<open>float\<close> cannot hold: 16777217 and 16777216 are different
  doubles and the same float, printed as \<open>16777216.000000\<close>.
\<close>

lemma narrowing_example:
  "double_to_float 0x4170000010000000 = 0x4B800000 \<and>
   double_to_float 0x4170000000000000 = 0x4B800000 \<and>
   fmt_6f 0x4B800000 = ''16777216.000000''"
  by (simp add: float_eval)

text \<open>
  More values: 1; 0.1, which is not a binary fraction and is printed from the nearest
  \<^verbatim>\<open>float\<close>; \<open>-0.0000015\<close>, rounded to six decimals; and \<open>1e39\<close>, beyond the largest
  \<^verbatim>\<open>float\<close>.
\<close>

lemma one_narrowed: "fmt_6f (double_to_float 0x3FF0000000000000) = ''1.000000''"
  by (simp add: float_eval)

lemma tenth_narrowed: "fmt_6f (double_to_float 0x3FB999999999999A) = ''0.100000''"
  by (simp add: float_eval)

lemma negative_narrowed: "fmt_6f (double_to_float 0xBEB92A737110E454) = ''-0.000002''"
  by (simp add: float_eval)

lemma overflow_narrowed: "fmt_6f (double_to_float 0x48078287F49C4A1D) = ''inf''"
  by (simp add: float_eval)

text \<open>
  Claim C10. On every context, key and double \<open>v\<close>, \<^verbatim>\<open>sjson_AddNumberToObject\<close> returns what
  \<^verbatim>\<open>sjson_AddFloatToObject\<close> returns on \<open>v\<close> cast to \<^verbatim>\<open>float\<close>, status and context alike,
  buffer and sink included. In an open object at an accepting sink, when key and number fit
  the formatting buffer, the call returns \<open>SJSON_OK\<close> and adds to the document a comma if
  the object has a member already, the quoted key, a colon and the \<^verbatim>\<open>%.6f\<close> text of the
  narrowed value, and it sets the comma flag of the depth. That text is the sign, the digits
  of the whole part, a point and exactly six digits when the narrowed value is finite, and
  the sign and \<open>inf\<close> or \<open>nan\<close> when it is not.
\<close>

theorem number_is_narrowed_float:
  "sjson_AddNumberToObject double_to_float fmt_6f ctx key v
     = sjson_AddFloatToObject fmt_6f ctx key (double_to_float v) \<and>
   (in_object ctx \<and> snprintf_fits 128 (quoted_key k @ fmt_6f (double_to_float v)) \<longrightarrow>
      (\<exists>ctx'. sjson_AddNumberToObject double_to_float fmt_6f ctx (Some k) v = Some (SJSON_OK, ctx') \<and>
         emitted ctx' = emitted ctx @ (if needs_comma ctx ! depth ctx then [CHR 0x2C] else []) @
                        quoted_key k @ fmt_6f (double_to_float v) \<and>
         depth ctx' = depth ctx \<and> depth_stack ctx' = depth_stack ctx \<and>
         needs_comma ctx' = (needs_comma ctx)[depth ctx := True] \<and>
         finalized ctx' = finalized ctx \<and> max_depth ctx' = max_depth ctx)) \<and>
   (\<exists>whole frac.
      fmt_6f (double_to_float v) = float_sign_text (double_to_float v) @
        (if float_is_finite (double_to_float v) then whole @ [CHR 0x2E] @ frac
         else if unat (double_to_float v) mod 2 ^ 23 = 0 then ''inf'' else ''nan'') \<and>
      whole \<noteq> [] \<and> list_all is_dec_digit whole \<and> length frac = 6 \<and> list_all is_dec_digit frac)"
  using add_float_member_effect[where ctx=ctx and fmt_f=fmt_6f and k=k and x="double_to_float v"] fmt_6f_shape[of "double_to_float v"]
  by (simp add: sjson_AddNumberToObject_def)

theorem number_is_narrowed_float_witness:
  \<open>in_object open_object_context \<and>
   double_to_float 0x4170000010000000 = 0x4B800000 \<and>
   fmt_6f (double_to_float 0x4170000010000000) = ''16777216.000000'' \<and>
   snprintf_fits 128 (quoted_key ''t'' @ fmt_6f (double_to_float 0x4170000010000000)) \<and>
   sjson_AddNumberToObject double_to_float fmt_6f open_object_context (Some ''t'') 0x4170000010000000
     = sjson_AddFloatToObject fmt_6f open_object_context (Some ''t'') (double_to_float 0x4170000010000000) \<and>
   (\<exists>ctx'. sjson_AddNumberToObject double_to_float fmt_6f open_object_context (Some ''t'')
              0x4170000010000000 = Some (SJSON_OK, ctx') \<and>
      emitted ctx' = ''{"t":16777216.000000'' \<and> depth ctx' = 1 \<and>
      needs_comma ctx' ! 1) \<and>
   sjson_AddNumberToObject double_to_float fmt_6f open_object_context (Some ''t'') 0x4170000010000000
     = sjson_AddNumberToObject double_to_float fmt_6f open_object_context (Some ''t'')
         0x4170000000000000\<close>
proof -
  have io: "in_object open_object_context"
    by (simp add: in_object_def good_def well_formed_def accepting_def always_accept_def
        open_object_context_def)
  have n: "double_to_float 0x4170000010000000 = 0x4B800000"
    and f: "fmt_6f (double_to_float 0x4170000010000000) = ''16777216.000000''"
    using narrowing_example by simp_all
  have fits: "snprintf_fits 128 (quoted_key ''t'' @ fmt_6f (double_to_float 0x4170000010000000))"
    by (simp add: f snprintf_fits_def quoted_key_def)
  have e: "emitted open_object_context = ''{''" "depth open_object_context = 1"
    "\<not> needs_comma open_object_context ! depth open_object_context"
    "needs_comma open_object_context = replicate 9 False"
    by (simp_all add: emitted_def open_object_context_def)
  from number_is_narrowed_float[of open_object_context "Some ''t''" "0x4170000010000000" "''t''"]
    io fits
  obtain ctx' where
    eq: "sjson_AddNumberToObject double_to_float fmt_6f open_object_context (Some ''t'') 0x4170000010000000
     = sjson_AddFloatToObject fmt_6f open_object_context (Some ''t'') (double_to_float 0x4170000010000000)"
    and r: "sjson_AddNumberToObject double_to_float fmt_6f open_object_context (Some ''t'')
              0x4170000010000000 = Some (SJSON_OK, ctx')"
      "emitted ctx' = emitted open_object_context @
          (if needs_comma open_object_context ! depth open_object_context then [CHR 0x2C] else []) @
          quoted_key ''t'' @ fmt_6f (double_to_float 0x4170000010000000)"
      "depth ctx' = depth open_object_context"
      "needs_comma ctx' = (needs_comma open_object_context)[depth open_object_context := True]"
    by blast
  have "emitted ctx' = ''{'' @ quoted_key ''t'' @ ''16777216.000000''"
    using r(2) e f by simp
  then have em: \<open>emitted ctx' = ''{"t":16777216.000000''\<close> by (simp add: quoted_key_def)
  have d: "depth ctx' = 1" "needs_comma ctx' ! 1" using r(3,4) e by (simp_all add: numeral_eq_Suc)
  have "double_to_float 0x4170000000000000 = double_to_float 0x4170000010000000"
    using narrowing_example by simp
  with number_is_narrowed_float[of open_object_context "Some ''t''" "0x4170000000000000" "''t''"] eq
  have same: "sjson_AddNumberToObject double_to_float fmt_6f open_object_context (Some ''t'')
        0x4170000010000000
      = sjson_AddNumberToObject double_to_float fmt_6f open_object_context (Some ''t'')
          0x4170000000000000"
    by simp
  from io n f fits eq r(1) em d same show ?thesis by blast
qed

end
